theory Spec2Isabelle
  imports Main
begin

section \<open>JavaScript arrays\<close>

text \<open>
  The functions of \<^verbatim>\<open>js/permute.js\<close> take values that are an \<^verbatim>\<open>Array\<close> or a typed
  array. Four kinds of arrays behave differently under what the functions do with them,
  which is \<^verbatim>\<open>a.length\<close>, \<^verbatim>\<open>a[i]\<close>, \<^verbatim>\<open>a[i] = v\<close> and \<^verbatim>\<open>a.slice()\<close>:

  \<^item> \<open>Array\<close>, a plain array, is a list of cells; a cell is \<open>None\<close> when it is a hole
    or holds \<^verbatim>\<open>undefined\<close> (both read as \<^verbatim>\<open>undefined\<close>). Reading outside the array
    gives \<^verbatim>\<open>undefined\<close>; writing at an index beyond the end extends the array, the
    cells in between being holes; writing at a negative index, or at one above the
    largest array index \<open>2\<^sup>3\<^sup>2 - 2\<close>, sets a property that is not an element, so that
    the elements and the length stay as they are. Properties that are not elements are
    not part of the model. \<^verbatim>\<open>slice()\<close> makes a copy.
  \<^item> \<open>TypedArray\<close>, a typed array of numbers (\<^verbatim>\<open>Int32Array\<close>, \<^verbatim>\<open>Float64Array\<close>, ...),
    has a fixed length. Reading outside the array gives \<^verbatim>\<open>undefined\<close>; writing
    outside the array is ignored; writing \<^verbatim>\<open>undefined\<close> stores the number that the
    element type makes of it (\<^verbatim>\<open>NaN\<close> in a float array, \<open>0\<close> in an integer array),
    which the constructor carries as its first argument. \<^verbatim>\<open>slice()\<close> makes a copy.
  \<^item> \<open>Buffer\<close>, the \<^verbatim>\<open>Buffer\<close> of Node.js, is a \<^verbatim>\<open>Uint8Array\<close> and reads and writes
    as one, but its \<^verbatim>\<open>slice()\<close> returns a new \<^verbatim>\<open>Buffer\<close> on the same memory: a view,
    not a copy.
  \<^item> \<open>BigIntArray\<close> (\<^verbatim>\<open>BigInt64Array\<close>, \<^verbatim>\<open>BigUint64Array\<close>) reads as a typed array
    does, but an assignment first converts the value to a \<^verbatim>\<open>BigInt\<close>, which throws a
    \<^verbatim>\<open>TypeError\<close> for \<^verbatim>\<open>undefined\<close>, at an index outside the array too. \<^verbatim>\<open>slice()\<close>
    makes a copy.

  The values written by the functions are values read from an array of the same kind,
  so that no other conversion takes place.
\<close>

datatype 'a jsarray =
    Array "'a option list"
  | TypedArray 'a "'a list"
  | Buffer 'a "'a list"
  | BigIntArray "'a list"

text \<open>
  What the functions throw: the two strings of \<^verbatim>\<open>updatePermutation\<close>, and the
  \<^verbatim>\<open>TypeError\<close> of an assignment.
\<close>

datatype error = LengthMismatch string | TypeError

definition plain_get :: "'a option list \<Rightarrow> int \<Rightarrow> 'a option" where
  "plain_get xs i = (if 0 \<le> i \<and> nat i < length xs then xs ! nat i else None)"

definition max_index :: int where
  "max_index = 4294967294"

definition plain_set :: "'a option list \<Rightarrow> int \<Rightarrow> 'a option \<Rightarrow> 'a option list" where
  "plain_set xs i v =
     (if i < 0 then xs
      else if nat i < length xs then xs[nat i := v]
      else if i \<le> max_index then xs @ replicate (nat i - length xs) None @ [v]
      else xs)"

definition typed_get :: "'a list \<Rightarrow> int \<Rightarrow> 'a option" where
  "typed_get ys i = (if 0 \<le> i \<and> nat i < length ys then Some (ys ! nat i) else None)"

text \<open>
  The assignment to an element of a typed array of numbers (a \<open>TypedArray\<close> or a
  \<open>Buffer\<close>), \<open>u\<close> being what the element type makes of \<^verbatim>\<open>undefined\<close>.
\<close>

definition typed_set :: "'a \<Rightarrow> 'a list \<Rightarrow> int \<Rightarrow> 'a option \<Rightarrow> 'a list" where
  "typed_set u ys i v =
     (if 0 \<le> i \<and> nat i < length ys
      then ys[nat i := (case v of None \<Rightarrow> u | Some w \<Rightarrow> w)]
      else ys)"

text \<open>\<^verbatim>\<open>a.length\<close>, \<^verbatim>\<open>a[i]\<close> and \<^verbatim>\<open>a[i] = v\<close>.\<close>

fun alength :: "'a jsarray \<Rightarrow> nat" where
  "alength (Array xs) = length xs"
| "alength (TypedArray u ys) = length ys"
| "alength (Buffer u ys) = length ys"
| "alength (BigIntArray ys) = length ys"

fun aget :: "'a jsarray \<Rightarrow> int \<Rightarrow> 'a option" where
  "aget (Array xs) i = plain_get xs i"
| "aget (TypedArray u ys) i = typed_get ys i"
| "aget (Buffer u ys) i = typed_get ys i"
| "aget (BigIntArray ys) i = typed_get ys i"

fun aset :: "'a jsarray \<Rightarrow> int \<Rightarrow> 'a option \<Rightarrow> error + 'a jsarray" where
  "aset (Array xs) i v = Inr (Array (plain_set xs i v))"
| "aset (TypedArray u ys) i v = Inr (TypedArray u (typed_set u ys i v))"
| "aset (Buffer u ys) i v = Inr (Buffer u (typed_set u ys i v))"
| "aset (BigIntArray ys) i v =
     (case v of
        None \<Rightarrow> Inl TypeError
      | Some w \<Rightarrow> Inr (BigIntArray (if 0 \<le> i \<and> nat i < length ys then ys[nat i := w] else ys)))"

text \<open>
  \<^verbatim>\<open>a.slice()\<close>: the elements of the array returned, which is of the kind of \<open>a\<close>, and
  whether it is a view on the memory of \<open>a\<close>. When it is, an assignment to either
  array is an assignment to both.
\<close>

definition slice :: "'a jsarray \<Rightarrow> 'a jsarray \<times> bool" where
  "slice a = (a, case a of Buffer u ys \<Rightarrow> True | _ \<Rightarrow> False)"

text \<open>The kind of an array, its cells, and whether all of them are defined.\<close>

datatype 'a kind = Plain | Typed 'a | NodeBuffer 'a | BigInt

fun akind :: "'a jsarray \<Rightarrow> 'a kind" where
  "akind (Array xs) = Plain"
| "akind (TypedArray u ys) = Typed u"
| "akind (Buffer u ys) = NodeBuffer u"
| "akind (BigIntArray ys) = BigInt"

fun cells :: "'a jsarray \<Rightarrow> 'a option list" where
  "cells (Array xs) = xs"
| "cells (TypedArray u ys) = map Some ys"
| "cells (Buffer u ys) = map Some ys"
| "cells (BigIntArray ys) = map Some ys"

definition all_defined :: "'a jsarray \<Rightarrow> bool" where
  "all_defined a = list_all (\<lambda>c. c \<noteq> None) (cells a)"

text \<open>An array whose \<^verbatim>\<open>slice()\<close> is a copy: every kind but \<open>Buffer\<close>.\<close>

definition copying :: "'a jsarray \<Rightarrow> bool" where
  "copying a = (\<not> snd (slice a))"

text \<open>
  A loop over the indices \<open>js\<close> whose body may throw: the state when the loop ends, and
  what was thrown, if anything; the body that throws leaves the state as it found it.
\<close>

fun for_each :: "('s \<Rightarrow> nat \<Rightarrow> error + 's) \<Rightarrow> 's \<Rightarrow> nat list \<Rightarrow> 's \<times> error option" where
  "for_each body s [] = (s, None)"
| "for_each body s (j # js) =
     (case body s j of Inl e \<Rightarrow> (s, Some e) | Inr s' \<Rightarrow> for_each body s' js)"

section \<open>The permutation of a layered matrix\<close>

text \<open>
  Modelled from the spec: the class \<^verbatim>\<open>LayeredSparseMatrix\<close> of \<^verbatim>\<open>js/SparseMatrix.js\<close>
  is not among the sources. The functions below use two of its methods,
  \<^verbatim>\<open>permutation({ copy: false })\<close>, an integer array, and \<^verbatim>\<open>numberOfRows()\<close>; a matrix
  is the record of what the two return.
\<close>

record LayeredSparseMatrix =
  permutation :: "int list"
  numberOfRows :: nat

text \<open>
  The first argument of the three functions is a matrix or a permutation vector, an
  \<^verbatim>\<open>Int32Array\<close>, given by its elements. No arithmetic is done on the elements, which
  are only compared and used as indices, so they are integers here.
\<close>

datatype layered = Matrix LayeredSparseMatrix | Perm "int list"

text \<open>
  A permutation of length \<open>n\<close> holds every value of \<open>[0, n)\<close> exactly once: its
  entries are in range and pairwise different (lemma \<open>valid_permutation_count\<close>
  below). An array whose entries are in range but may repeat is malformed.
\<close>

definition in_range :: "int list \<Rightarrow> nat \<Rightarrow> bool" where
  "in_range P n = list_all (\<lambda>x. 0 \<le> x \<and> x < int n) P"

definition valid_permutation :: "int list \<Rightarrow> bool" where
  "valid_permutation P = (distinct P \<and> in_range P (length P))"

text \<open>The permutation vector that a first argument stands for.\<close>

definition perm_of :: "layered \<Rightarrow> int list" where
  "perm_of layered = (case layered of Matrix m \<Rightarrow> permutation m | Perm p \<Rightarrow> p)"

section \<open>permuteVector and unpermuteVector\<close>

text \<open>
  \<^verbatim>\<open>perm.forEach((x, i) => { copy[x] = values[i]; })\<close> visits the indices
  \<open>0, ..., perm.length - 1\<close> in this order, with \<open>x = perm[i]\<close>. When \<open>copy\<close> is a
  view on the memory of \<open>values\<close>, \<^verbatim>\<open>values[i]\<close> reads what the assignments before it
  have left there, which is what \<open>copy\<close> holds. Neither function has a \<^verbatim>\<open>throw\<close>; what
  they throw is what an assignment throws.
\<close>

definition permuteVector :: "layered \<Rightarrow> 'a jsarray \<Rightarrow> error + 'a jsarray" where
  "permuteVector layered values =
     (let (copy, view) = slice values;
          perm = (case layered of Matrix m \<Rightarrow> permutation m | Perm p \<Rightarrow> p)
      in case for_each
                (\<lambda>copy i. aset copy (perm ! i) (aget (if view then copy else values) (int i)))
                copy [0..<length perm]
         of (copy, None) \<Rightarrow> Inr copy | (copy, Some e) \<Rightarrow> Inl e)"

definition unpermuteVector :: "layered \<Rightarrow> 'a jsarray \<Rightarrow> error + 'a jsarray" where
  "unpermuteVector layered values =
     (let (copy, view) = slice values;
          perm = (case layered of Matrix m \<Rightarrow> permutation m | Perm p \<Rightarrow> p)
      in case for_each
                (\<lambda>copy i. aset copy (int i) (aget (if view then copy else values) (perm ! i)))
                copy [0..<length perm]
         of (copy, None) \<Rightarrow> Inr copy | (copy, Some e) \<Rightarrow> Inl e)"

text \<open>
  For the proofs: the array after an assignment that does not throw, and the array
  \<open>copy\<close> after the first \<open>k\<close> calls of the two callbacks when \<open>copy\<close> is a copy and no
  assignment throws.
\<close>

definition awrite :: "'a jsarray \<Rightarrow> int \<Rightarrow> 'a option \<Rightarrow> 'a jsarray" where
  "awrite a i v = (case aset a i v of Inl e \<Rightarrow> a | Inr a' \<Rightarrow> a')"

definition permute_loop :: "int list \<Rightarrow> 'a jsarray \<Rightarrow> nat \<Rightarrow> 'a jsarray" where
  "permute_loop perm vals k =
     foldl (\<lambda>copy i. awrite copy (perm ! i) (aget vals (int i))) vals [0..<k]"

definition unpermute_loop :: "int list \<Rightarrow> 'a jsarray \<Rightarrow> nat \<Rightarrow> 'a jsarray" where
  "unpermute_loop perm vals k =
     foldl (\<lambda>copy i. awrite copy (int i) (aget vals (perm ! i))) vals [0..<k]"

section \<open>updatePermutation\<close>

text \<open>The two strings that \<^verbatim>\<open>updatePermutation\<close> throws.\<close>

definition quoted :: "string \<Rightarrow> string" where
  "quoted s = [CHR 0x27] @ s @ [CHR 0x27]"

definition rows_message :: string where
  "rows_message =
     ''number of rows in '' @ quoted ''layered'' @
     '' should be the same as length of '' @ quoted ''old''"

definition length_message :: string where
  "length_message =
     ''length of '' @ quoted ''layered'' @
     '' should be the same as length of '' @ quoted ''old''"

text \<open>
  The comparison loop over \<^verbatim>\<open>spawnPerm().entries()\<close>, which leaves at the first index
  where \<^verbatim>\<open>old[index] != val\<close>; \<open>old\<close> is an \<^verbatim>\<open>Int32Array\<close>, as the permutation
  vector that it is documented to be.
\<close>

fun same_loop :: "int list \<Rightarrow> int list \<Rightarrow> nat list \<Rightarrow> bool" where
  "same_loop perm old [] = True"
| "same_loop perm old (index # rest) =
     (if typed_get old (int index) \<noteq> Some (perm ! index) then False
      else same_loop perm old rest)"

text \<open>
  After the length check: \<^verbatim>\<open>null\<close> (\<open>None\<close>) when the loop found no difference,
  otherwise the copy of \<open>old\<close> with \<^verbatim>\<open>output[x] = old[i]\<close> done for every entry
  \<open>x = perm[i]\<close>. The output is a typed array of integers as \<open>old\<close> is, so it stores
  \<open>0\<close> for \<^verbatim>\<open>undefined\<close>. The source calls \<^verbatim>\<open>spawnPerm()\<close> once for each loop; a
  matrix returns the same permutation both times.
\<close>

definition update_body :: "int list \<Rightarrow> int list \<Rightarrow> int list option" where
  "update_body perm old =
     (if same_loop perm old [0..<length perm] then None
      else Some (foldl (\<lambda>output i. typed_set 0 output (perm ! i) (typed_get old (int i)))
                   old [0..<length perm]))"

text \<open>The array \<open>output\<close> after the first \<open>k\<close> calls of the callback.\<close>

definition update_loop :: "int list \<Rightarrow> int list \<Rightarrow> nat \<Rightarrow> int list" where
  "update_loop perm old k =
     foldl (\<lambda>output i. typed_set 0 output (perm ! i) (typed_get old (int i))) old [0..<k]"

definition updatePermutation :: "layered \<Rightarrow> int list \<Rightarrow> error + int list option" where
  "updatePermutation layered old =
     (case layered of
        Matrix m \<Rightarrow>
          if length old \<noteq> numberOfRows m then Inl (LengthMismatch rows_message)
          else Inr (update_body (permutation m) old)
      | Perm p \<Rightarrow>
          if length old \<noteq> length p then Inl (LengthMismatch length_message)
          else Inr (update_body p old))"

text \<open>
  The length that the check compares with \<open>old.length\<close>: \<^verbatim>\<open>layered.numberOfRows()\<close>
  for a matrix, \<^verbatim>\<open>layered.length\<close> for a permutation vector. A matrix is well formed
  when its permutation has one entry for each row.
\<close>

definition checked_length :: "layered \<Rightarrow> nat" where
  "checked_length layered = (case layered of Matrix m \<Rightarrow> numberOfRows m | Perm p \<Rightarrow> length p)"

definition well_formed :: "layered \<Rightarrow> bool" where
  "well_formed layered = (checked_length layered = length (perm_of layered))"


section \<open>The three functions on a store\<close>

text \<open>
  Arrays are objects: two names may stand for the same array, \<^verbatim>\<open>slice\<close> makes a new
  object, and the memory of a \<^verbatim>\<open>Buffer\<close> is shared with the views made of it. Here the
  store is the list of the arrays allocated so far, an address is a position in it and
  names the memory of an array, and a function takes the addresses of its arguments
  and returns the store together with its result. The elements are integers, as those
  of a permutation are, so that an array may be passed as a permutation and as values
  at once.

  A matrix gives the address of the array that \<^verbatim>\<open>permutation({ copy: false })\<close>
  returns, a view of its own storage, and what \<^verbatim>\<open>numberOfRows()\<close> returns.
\<close>

type_synonym addr = nat

type_synonym heap = "int jsarray list"

datatype layered_ref = MatrixRef addr nat | PermRef addr

definition perm_addr :: "layered_ref \<Rightarrow> addr" where
  "perm_addr layered = (case layered of MatrixRef p n \<Rightarrow> p | PermRef p \<Rightarrow> p)"

definition heap_read :: "heap \<Rightarrow> addr \<Rightarrow> int \<Rightarrow> int option" where
  "heap_read h r i = aget (h ! r) i"

definition heap_write :: "heap \<Rightarrow> addr \<Rightarrow> int \<Rightarrow> int option \<Rightarrow> error + heap" where
  "heap_write h r i v = (case aset (h ! r) i v of Inl e \<Rightarrow> Inl e | Inr a \<Rightarrow> Inr (h[r := a]))"

text \<open>
  \<^verbatim>\<open>a.slice()\<close> on the store. A copy is a new array at a new address. A view is a
  new object on the memory of \<open>a\<close>: it has the address of \<open>a\<close>, the store does not
  tell the two objects apart, and whatever is written through one is read through the
  other.
\<close>

definition heap_slice :: "heap \<Rightarrow> addr \<Rightarrow> heap \<times> addr" where
  "heap_slice h r =
     (case slice (h ! r) of (a, view) \<Rightarrow> if view then (h, r) else (h @ [a], length h))"

text \<open>
  \<^verbatim>\<open>perm.forEach(callback)\<close> on a typed array: the length is read once, the element
  at each index when its turn comes, from the store as the callbacks before it left it.
\<close>

definition forEach ::
    "heap \<Rightarrow> addr \<Rightarrow> (heap \<Rightarrow> int \<Rightarrow> nat \<Rightarrow> error + heap) \<Rightarrow> heap \<times> error option" where
  "forEach h perm callback =
     for_each (\<lambda>h i. case heap_read h perm (int i) of Some x \<Rightarrow> callback h x i | None \<Rightarrow> Inr h)
       h [0..<alength (h ! perm)]"

text \<open>
  A call is well typed when both addresses are in the store and the permutation is a
  typed array of numbers, as documented (an \<^verbatim>\<open>Int32Array\<close>); the functions on the store
  are \<open>None\<close> on other calls, which this model does not describe.
\<close>

definition well_typed :: "heap \<Rightarrow> layered_ref \<Rightarrow> addr \<Rightarrow> bool" where
  "well_typed h layered values =
     (perm_addr layered < length h \<and> values < length h \<and>
      (case h ! perm_addr layered of TypedArray u P \<Rightarrow> True | _ \<Rightarrow> False))"

text \<open>The result is the store and the error thrown or the address of the array returned.\<close>

definition permuteVector_heap ::
    "heap \<Rightarrow> layered_ref \<Rightarrow> addr \<Rightarrow> (heap \<times> (error + addr)) option" where
  "permuteVector_heap h layered values =
     (if \<not> well_typed h layered values then None
      else let (h1, copy) = heap_slice h values;
               perm = perm_addr layered
           in Some (case forEach h1 perm
                           (\<lambda>h x i. heap_write h copy x (heap_read h values (int i)))
                    of (h2, None) \<Rightarrow> (h2, Inr copy) | (h2, Some e) \<Rightarrow> (h2, Inl e)))"

definition unpermuteVector_heap ::
    "heap \<Rightarrow> layered_ref \<Rightarrow> addr \<Rightarrow> (heap \<times> (error + addr)) option" where
  "unpermuteVector_heap h layered values =
     (if \<not> well_typed h layered values then None
      else let (h1, copy) = heap_slice h values;
               perm = perm_addr layered
           in Some (case forEach h1 perm
                           (\<lambda>h x i. heap_write h copy (int i) (heap_read h values x))
                    of (h2, None) \<Rightarrow> (h2, Inr copy) | (h2, Some e) \<Rightarrow> (h2, Inl e)))"

fun same_loop_heap :: "heap \<Rightarrow> addr \<Rightarrow> addr \<Rightarrow> nat list \<Rightarrow> bool" where
  "same_loop_heap h perm old [] = True"
| "same_loop_heap h perm old (index # rest) =
     (if heap_read h old (int index) \<noteq> heap_read h perm (int index) then False
      else same_loop_heap h perm old rest)"

text \<open>The result is the store and the error thrown, \<^verbatim>\<open>null\<close> or the address of the output.\<close>

definition updatePermutation_heap ::
    "heap \<Rightarrow> layered_ref \<Rightarrow> addr \<Rightarrow> (heap \<times> (error + addr option)) option" where
  "updatePermutation_heap h layered old =
     (if \<not> well_typed h layered old then None
      else if (case layered of
                 MatrixRef p n \<Rightarrow> alength (h ! old) \<noteq> n
               | PermRef p \<Rightarrow> alength (h ! old) \<noteq> alength (h ! p))
      then Some (h, Inl (LengthMismatch
                   (case layered of MatrixRef p n \<Rightarrow> rows_message | PermRef p \<Rightarrow> length_message)))
      else let perm = perm_addr layered in
        if same_loop_heap h perm old [0..<alength (h ! perm)] then Some (h, Inr None)
        else let (h1, output) = heap_slice h old
             in Some (case forEach h1 perm
                             (\<lambda>h x i. heap_write h output x (heap_read h old (int i)))
                      of (h2, None) \<Rightarrow> (h2, Inr (Some output)) | (h2, Some e) \<Rightarrow> (h2, Inl e)))"

text \<open>
  A store \<open>h'\<close> keeps the store \<open>h\<close> when every array of \<open>h\<close> is in \<open>h'\<close> at its address
  as it was; an address is new when it is in \<open>h'\<close> and not in \<open>h\<close>.
\<close>

definition keeps :: "heap \<Rightarrow> heap \<Rightarrow> bool" where
  "keeps h h' = (take (length h) h' = h)"

definition new_in :: "heap \<Rightarrow> heap \<Rightarrow> addr \<Rightarrow> bool" where
  "new_in h h' r = (length h \<le> r \<and> r < length h')"

text \<open>The elements of a typed array, and the first argument that a reference stands for.\<close>

fun typed_elems :: "'a jsarray \<Rightarrow> 'a list" where
  "typed_elems (TypedArray u ys) = ys"
| "typed_elems (Buffer u ys) = ys"
| "typed_elems (BigIntArray ys) = ys"
| "typed_elems (Array xs) = []"

definition layered_at :: "heap \<Rightarrow> layered_ref \<Rightarrow> layered" where
  "layered_at h layered =
     (case layered of
        MatrixRef p n \<Rightarrow> Matrix \<lparr>permutation = typed_elems (h ! p), numberOfRows = n\<rparr>
      | PermRef p \<Rightarrow> Perm (typed_elems (h ! p)))"

section \<open>Reading and writing arrays\<close>

lemma aset_awrite: "akind a \<noteq> BigInt \<or> v \<noteq> None \<Longrightarrow> aset a x v = Inr (awrite a x v)"
  by (cases a) (auto simp add: awrite_def)

lemma alength_awrite:
  "0 \<le> x \<Longrightarrow> nat x < alength a \<Longrightarrow> alength (awrite a x v) = alength a"
  by (cases a) (simp_all add: awrite_def plain_set_def typed_set_def split: option.splits)

lemma akind_awrite: "akind (awrite a x v) = akind a"
  by (cases a) (simp_all add: awrite_def split: option.splits)

lemma aget_awrite_other:
  "0 \<le> x \<Longrightarrow> nat x < alength a \<Longrightarrow> j \<noteq> x \<Longrightarrow> aget (awrite a x v) j = aget a j"
  by (cases a)
    (auto simp add: awrite_def plain_set_def typed_set_def plain_get_def typed_get_def
      split: option.splits)

lemma aget_awrite_same:
  "0 \<le> x \<Longrightarrow> nat x < alength a \<Longrightarrow> akind a = Plain \<or> v \<noteq> None \<Longrightarrow>
   aget (awrite a x v) x = v"
  by (cases a)
    (auto simp add: awrite_def plain_set_def typed_set_def plain_get_def typed_get_def
      split: option.splits)

lemma aget_storable:
  "0 \<le> i \<Longrightarrow> nat i < alength a \<Longrightarrow> akind b = akind a \<Longrightarrow>
   akind b = Plain \<or> aget a i \<noteq> None"
  by (cases a; cases b) (simp_all add: typed_get_def)

lemma length_cells: "length (cells a) = alength a"
  by (cases a) simp_all

lemma aget_cells: "0 \<le> i \<Longrightarrow> nat i < alength a \<Longrightarrow> aget a i = cells a ! nat i"
  by (cases a) (simp_all add: plain_get_def typed_get_def)

lemma all_defined_iff: "all_defined a = (\<forall>j<alength a. aget a (int j) \<noteq> None)"
  by (cases a) (auto simp add: all_defined_def list_all_length plain_get_def typed_get_def)

text \<open>Two arrays of the same kind and length with the same elements are equal.\<close>

lemma nth_eq_typed:
  assumes "length xs = length ys"
    and "\<And>j. j < length xs \<Longrightarrow> typed_get xs (int j) = typed_get ys (int j)"
  shows "xs = ys"
proof (rule nth_equalityI)
  show "length xs = length ys" by fact
next
  fix j assume "j < length xs"
  then show "xs ! j = ys ! j" using assms(1) assms(2) [of j] by (simp add: typed_get_def)
qed

lemma jsarray_eqI:
  assumes "akind a = akind b" and "alength a = alength b"
    and "\<And>j. j < alength a \<Longrightarrow> aget a (int j) = aget b (int j)"
  shows "a = b"
proof (cases a)
  case (Array xs)
  then obtain ys where b: "b = Array ys" using assms(1) by (cases b) simp_all
  have "xs = ys"
  proof (rule nth_equalityI)
    show "length xs = length ys" using assms(2) Array b by simp
  next
    fix j assume "j < length xs"
    then show "xs ! j = ys ! j"
      using assms(2) assms(3) [of j] Array b by (simp add: plain_get_def)
  qed
  then show ?thesis using Array b by simp
next
  case (TypedArray u xs)
  then obtain ys where b: "b = TypedArray u ys" using assms(1) by (cases b) simp_all
  have "xs = ys" using assms(2) assms(3) TypedArray b by (intro nth_eq_typed) simp_all
  then show ?thesis using TypedArray b by simp
next
  case (Buffer u xs)
  then obtain ys where b: "b = Buffer u ys" using assms(1) by (cases b) simp_all
  have "xs = ys" using assms(2) assms(3) Buffer b by (intro nth_eq_typed) simp_all
  then show ?thesis using Buffer b by simp
next
  case (BigIntArray xs)
  then obtain ys where b: "b = BigIntArray ys" using assms(1) by (cases b) simp_all
  have "xs = ys" using assms(2) assms(3) BigIntArray b by (intro nth_eq_typed) simp_all
  then show ?thesis using BigIntArray b by simp
qed

text \<open>
  One assignment \<^verbatim>\<open>copy[x] = values[y]\<close> with both indices inside the arrays, \<open>copy\<close>
  being of the kind and length of \<open>values\<close>: it does not throw, as an element inside
  a typed array is defined.
\<close>

lemma store_step:
  assumes len: "alength R = alength vals" "akind R = akind vals"
    and y: "0 \<le> y" "nat y < alength vals" and x: "0 \<le> x" "nat x < alength vals"
  shows "alength (awrite R x (aget vals y)) = alength vals"
    and "akind (awrite R x (aget vals y)) = akind vals"
    and "aget (awrite R x (aget vals y)) x = aget vals y"
    and "j \<noteq> x \<Longrightarrow> aget (awrite R x (aget vals y)) j = aget R j"
    and "aset R x (aget vals y) = Inr (awrite R x (aget vals y))"
proof -
  have xr: "0 \<le> x" "nat x < alength R" using x len by simp_all
  show "alength (awrite R x (aget vals y)) = alength vals"
    using alength_awrite [OF xr] len by simp
  show "akind (awrite R x (aget vals y)) = akind vals"
    using len by (simp add: akind_awrite)
  have st: "akind R = Plain \<or> aget vals y \<noteq> None"
    using aget_storable [OF y] len by simp
  then show "aget (awrite R x (aget vals y)) x = aget vals y"
    using aget_awrite_same [OF xr] by simp
  show "j \<noteq> x \<Longrightarrow> aget (awrite R x (aget vals y)) j = aget R j"
    using aget_awrite_other [OF xr] by simp
  have "akind R \<noteq> BigInt \<or> aget vals y \<noteq> None" using st by auto
  then show "aset R x (aget vals y) = Inr (awrite R x (aget vals y))"
    by (rule aset_awrite)
qed

text \<open>A loop whose body does not throw on the states it meets is a fold.\<close>

lemma for_each_foldl:
  assumes "\<And>s j. ok s \<Longrightarrow> j \<in> set js \<Longrightarrow> body s j = Inr (g s j) \<and> ok (g s j)"
    and "ok s"
  shows "for_each body s js = (foldl g s js, None)"
  using assms
proof (induction js arbitrary: s)
  case Nil
  then show ?case by simp
next
  case (Cons j js)
  have b: "body s j = Inr (g s j)" and i: "ok (g s j)"
    using Cons.prems(1) [of s j] Cons.prems(2) by simp_all
  have "for_each body (g s j) js = (foldl g (g s j) js, None)"
    using Cons.IH [of "g s j"] Cons.prems(1) i by simp
  then show ?case using b by simp
qed

section \<open>Permutations\<close>

lemma in_range_nth: "in_range P n \<Longrightarrow> i < length P \<Longrightarrow> 0 \<le> P ! i \<and> nat (P ! i) < n"
  by (auto simp add: in_range_def list_all_length)

lemma in_range_set: "in_range P n \<Longrightarrow> set P \<subseteq> {0..<int n}"
  by (auto simp add: in_range_def list_all_iff)

lemma valid_permutation_set:
  assumes "valid_permutation P"
  shows "set P = {0..<int (length P)}"
proof (rule card_subset_eq)
  show "finite {0..<int (length P)}" by simp
  show "set P \<subseteq> {0..<int (length P)}"
    using assms by (simp add: valid_permutation_def in_range_set)
  have "card (set P) = length P"
    using assms by (simp add: valid_permutation_def distinct_card)
  then show "card (set P) = card {0..<int (length P)}" by simp
qed

lemma valid_permutation_onto:
  assumes "valid_permutation P" and "j < length P"
  shows "\<exists>i<length P. P ! i = int j"
proof -
  have "int j \<in> set P" using assms valid_permutation_set [OF assms(1)] by simp
  then show ?thesis by (simp add: in_set_conv_nth)
qed

lemma valid_permutation_inj:
  "valid_permutation P \<Longrightarrow> i < length P \<Longrightarrow> k < length P \<Longrightarrow> P ! i = P ! k \<Longrightarrow> i = k"
  by (simp add: valid_permutation_def nth_eq_iff_index_eq)



section \<open>The loops of permuteVector and unpermuteVector\<close>

lemma permute_loop_Suc:
  "permute_loop perm vals (Suc k) =
     awrite (permute_loop perm vals k) (perm ! k) (aget vals (int k))"
  by (simp add: permute_loop_def)

lemma unpermute_loop_Suc:
  "unpermute_loop perm vals (Suc k) =
     awrite (unpermute_loop perm vals k) (int k) (aget vals (perm ! k))"
  by (simp add: unpermute_loop_def)

text \<open>
  The invariant of the loop of \<open>permuteVector\<close> on a copy, for entries in range: after
  \<open>k\<close> rounds the copy has the kind and length of \<open>values\<close>, a position that no entry
  among the first \<open>k\<close> names still holds its initial value, and the position named by
  entry \<open>i\<close> holds \<open>values[i]\<close> unless a later entry among the first \<open>k\<close> names it too.
\<close>

lemma permute_loop_inv:
  assumes len: "length perm \<le> alength vals" and rng: "in_range perm (alength vals)"
  shows "k \<le> length perm \<Longrightarrow>
    alength (permute_loop perm vals k) = alength vals \<and>
    akind (permute_loop perm vals k) = akind vals \<and>
    (\<forall>j. (\<forall>i<k. perm ! i \<noteq> j) \<longrightarrow>
       aget (permute_loop perm vals k) j = aget vals j) \<and>
    (\<forall>i<k. (\<forall>i'. i < i' \<and> i' < k \<longrightarrow> perm ! i' \<noteq> perm ! i) \<longrightarrow>
       aget (permute_loop perm vals k) (perm ! i) = aget vals (int i))"
proof (induction k)
  case 0
  then show ?case by (simp add: permute_loop_def)
next
  case (Suc k)
  define R where "R = permute_loop perm vals k"
  define R' where "R' = permute_loop perm vals (Suc k)"
  have k: "k < length perm" using Suc.prems by simp
  have IH: "alength R = alength vals" "akind R = akind vals"
    "\<forall>j. (\<forall>i<k. perm ! i \<noteq> j) \<longrightarrow> aget R j = aget vals j"
    "\<forall>i<k. (\<forall>i'. i < i' \<and> i' < k \<longrightarrow> perm ! i' \<noteq> perm ! i) \<longrightarrow>
       aget R (perm ! i) = aget vals (int i)"
    using Suc.IH k unfolding R_def by simp_all
  have step: "R' = awrite R (perm ! k) (aget vals (int k))"
    unfolding R_def R'_def by (rule permute_loop_Suc)
  have xk: "0 \<le> perm ! k" "nat (perm ! k) < alength vals"
    using in_range_nth [OF rng k] by simp_all
  have kv: "0 \<le> int k" "nat (int k) < alength vals" using k len by simp_all
  note ps = store_step [OF IH(1) IH(2) kv xk, folded step]
  have c3: "\<forall>j. (\<forall>i<Suc k. perm ! i \<noteq> j) \<longrightarrow> aget R' j = aget vals j"
  proof (intro allI impI)
    fix j assume a: "\<forall>i<Suc k. perm ! i \<noteq> j"
    then have "j \<noteq> perm ! k" by auto
    then have "aget R' j = aget R j" by (rule ps(4))
    moreover have "aget R j = aget vals j" using IH(3) a by simp
    ultimately show "aget R' j = aget vals j" by simp
  qed
  have c4: "\<forall>i<Suc k. (\<forall>i'. i < i' \<and> i' < Suc k \<longrightarrow> perm ! i' \<noteq> perm ! i) \<longrightarrow>
       aget R' (perm ! i) = aget vals (int i)"
  proof (intro allI impI)
    fix i
    assume i: "i < Suc k"
      and later: "\<forall>i'. i < i' \<and> i' < Suc k \<longrightarrow> perm ! i' \<noteq> perm ! i"
    show "aget R' (perm ! i) = aget vals (int i)"
    proof (cases "i = k")
      case True
      then show ?thesis using ps(3) by simp
    next
      case False
      then have ik: "i < k" using i by simp
      then have ne: "perm ! i \<noteq> perm ! k" using later by (metis lessI)
      have "\<forall>i'. i < i' \<and> i' < k \<longrightarrow> perm ! i' \<noteq> perm ! i" using later by simp
      then have "aget R (perm ! i) = aget vals (int i)" using IH(4) ik by simp
      then show ?thesis using ps(4) [OF ne] by simp
    qed
  qed
  show ?case using ps(1) ps(2) c3 c4 unfolding R'_def by blast
qed

text \<open>
  The invariant of the loop of \<open>unpermuteVector\<close>: after \<open>k\<close> rounds position \<open>j\<close>
  holds \<open>values[perm[j]]\<close> when \<open>j < k\<close> and its initial value otherwise.
\<close>

lemma unpermute_loop_inv:
  assumes len: "length perm \<le> alength vals" and rng: "in_range perm (alength vals)"
  shows "k \<le> length perm \<Longrightarrow>
    alength (unpermute_loop perm vals k) = alength vals \<and>
    akind (unpermute_loop perm vals k) = akind vals \<and>
    (\<forall>j. aget (unpermute_loop perm vals k) j =
       (if 0 \<le> j \<and> nat j < k then aget vals (perm ! nat j) else aget vals j))"
proof (induction k)
  case 0
  then show ?case by (simp add: unpermute_loop_def)
next
  case (Suc k)
  define R where "R = unpermute_loop perm vals k"
  define R' where "R' = unpermute_loop perm vals (Suc k)"
  have k: "k < length perm" using Suc.prems by simp
  have IH: "alength R = alength vals" "akind R = akind vals"
    "\<forall>j. aget R j = (if 0 \<le> j \<and> nat j < k then aget vals (perm ! nat j) else aget vals j)"
    using Suc.IH k unfolding R_def by simp_all
  have step: "R' = awrite R (int k) (aget vals (perm ! k))"
    unfolding R_def R'_def by (rule unpermute_loop_Suc)
  have xk: "0 \<le> perm ! k" "nat (perm ! k) < alength vals"
    using in_range_nth [OF rng k] by simp_all
  have kv: "0 \<le> int k" "nat (int k) < alength vals" using k len by simp_all
  note ps = store_step [OF IH(1) IH(2) xk kv, folded step]
  have c3: "\<forall>j. aget R' j =
      (if 0 \<le> j \<and> nat j < Suc k then aget vals (perm ! nat j) else aget vals j)"
  proof
    fix j
    show "aget R' j =
      (if 0 \<le> j \<and> nat j < Suc k then aget vals (perm ! nat j) else aget vals j)"
    proof (cases "j = int k")
      case True
      then show ?thesis using ps(3) by simp
    next
      case False
      then have "aget R' j = aget R j" by (rule ps(4))
      moreover have "(0 \<le> j \<and> nat j < Suc k) = (0 \<le> j \<and> nat j < k)"
        using False by auto
      ultimately show ?thesis using IH(3) by simp
    qed
  qed
  show ?case using ps(1) ps(2) c3 unfolding R'_def by blast
qed

section \<open>What the two mappers return when slice() makes a copy\<close>

lemma copying_slice: "copying V \<Longrightarrow> slice V = (V, False)"
  by (simp add: copying_def slice_def)

lemma copying_kind: "akind a = akind b \<Longrightarrow> copying a = copying b"
  by (cases a; cases b) (simp_all add: copying_def slice_def)

text \<open>
  On a copy, with entries in range and no more entries than values, no assignment
  throws and the loops are the folds \<open>permute_loop\<close> and \<open>unpermute_loop\<close>.
\<close>

lemma permuteVector_copying:
  assumes cp: "copying V" and rng: "in_range (perm_of L) (alength V)"
    and len: "length (perm_of L) \<le> alength V"
  shows "permuteVector L V = Inr (permute_loop (perm_of L) V (length (perm_of L)))"
proof -
  define P where "P = perm_of L"
  have "for_each (\<lambda>copy i. aset copy (P ! i) (aget V (int i))) V [0..<length P] =
      (foldl (\<lambda>copy i. awrite copy (P ! i) (aget V (int i))) V [0..<length P], None)"
  proof (rule for_each_foldl [where ok = "\<lambda>s. alength s = alength V \<and> akind s = akind V"])
    fix s j
    assume s: "alength s = alength V \<and> akind s = akind V" and "j \<in> set [0..<length P]"
    then have j: "j < length P" by simp
    have x: "0 \<le> P ! j" "nat (P ! j) < alength V"
      using in_range_nth [of P "alength V" j] rng j by (simp_all add: P_def)
    have y: "0 \<le> int j" "nat (int j) < alength V" using j len by (simp_all add: P_def)
    show "aset s (P ! j) (aget V (int j)) = Inr (awrite s (P ! j) (aget V (int j))) \<and>
        alength (awrite s (P ! j) (aget V (int j))) = alength V \<and>
        akind (awrite s (P ! j) (aget V (int j))) = akind V"
      using store_step(1,2,5) [OF _ _ y x, of s] s by simp
  qed simp
  then show ?thesis
    using copying_slice [OF cp]
    by (cases L) (simp_all add: permuteVector_def permute_loop_def perm_of_def P_def Let_def)
qed

lemma unpermuteVector_copying:
  assumes cp: "copying V" and rng: "in_range (perm_of L) (alength V)"
    and len: "length (perm_of L) \<le> alength V"
  shows "unpermuteVector L V = Inr (unpermute_loop (perm_of L) V (length (perm_of L)))"
proof -
  define P where "P = perm_of L"
  have "for_each (\<lambda>copy i. aset copy (int i) (aget V (P ! i))) V [0..<length P] =
      (foldl (\<lambda>copy i. awrite copy (int i) (aget V (P ! i))) V [0..<length P], None)"
  proof (rule for_each_foldl [where ok = "\<lambda>s. alength s = alength V \<and> akind s = akind V"])
    fix s j
    assume s: "alength s = alength V \<and> akind s = akind V" and "j \<in> set [0..<length P]"
    then have j: "j < length P" by simp
    have y: "0 \<le> P ! j" "nat (P ! j) < alength V"
      using in_range_nth [of P "alength V" j] rng j by (simp_all add: P_def)
    have x: "0 \<le> int j" "nat (int j) < alength V" using j len by (simp_all add: P_def)
    show "aset s (int j) (aget V (P ! j)) = Inr (awrite s (int j) (aget V (P ! j))) \<and>
        alength (awrite s (int j) (aget V (P ! j))) = alength V \<and>
        akind (awrite s (int j) (aget V (P ! j))) = akind V"
      using store_step(1,2,5) [OF _ _ y x, of s] s by simp
  qed simp
  then show ?thesis
    using copying_slice [OF cp]
    by (cases L) (simp_all add: unpermuteVector_def unpermute_loop_def perm_of_def P_def Let_def)
qed

text \<open>With entries in range and as many entries as values, the results of the loops.\<close>

lemma permuteVector_result:
  assumes "copying V" and "in_range (perm_of L) (alength V)"
    and "length (perm_of L) = alength V"
  shows "\<exists>W. permuteVector L V = Inr W \<and> alength W = alength V \<and> akind W = akind V \<and>
    (\<forall>j. (\<forall>i<alength V. perm_of L ! i \<noteq> j) \<longrightarrow> aget W j = aget V j) \<and>
    (\<forall>i<alength V. (\<forall>k. i < k \<and> k < alength V \<longrightarrow> perm_of L ! k \<noteq> perm_of L ! i) \<longrightarrow>
       aget W (perm_of L ! i) = aget V (int i))"
  using permute_loop_inv [of "perm_of L" V "length (perm_of L)"] assms
    permuteVector_copying [of V L]
  by simp

lemma unpermuteVector_result:
  assumes "copying V" and "in_range (perm_of L) (alength V)"
    and "length (perm_of L) = alength V"
  shows "\<exists>W. unpermuteVector L V = Inr W \<and> alength W = alength V \<and> akind W = akind V \<and>
    (\<forall>i<alength V. aget W (int i) = aget V (perm_of L ! i))"
  using unpermute_loop_inv [of "perm_of L" V "length (perm_of L)"] assms
    unpermuteVector_copying [of V L]
  by simp

text \<open>The largest index at which a value occurs.\<close>

lemma last_occurrence:
  assumes "i < n" and "P ! i = (j::int)"
  shows "\<exists>m<n. P ! m = j \<and> (\<forall>k<n. P ! k = j \<longrightarrow> k \<le> m)"
proof -
  define S where "S = {k. k < n \<and> P ! k = j}"
  have fin: "finite S" unfolding S_def by simp
  have ne: "S \<noteq> {}" using assms unfolding S_def by auto
  have "Max S \<in> S" using fin ne by (rule Max_in)
  moreover have "\<forall>k\<in>S. k \<le> Max S" using fin by simp
  ultimately show ?thesis unfolding S_def by blast
qed

text \<open>
  For a valid permutation and a vector whose \<^verbatim>\<open>slice()\<close> is a copy, the two mappers do
  what their documentation says, and each undoes the other.
\<close>

lemma permuteVector_copying_contract:
  assumes v: "valid_permutation (perm_of L)" and len: "alength V = length (perm_of L)"
    and cp: "copying V"
  shows "\<exists>W. permuteVector L V = Inr W \<and> alength W = alength V \<and> akind W = akind V \<and>
    (\<forall>i<alength V. aget W (perm_of L ! i) = aget V (int i))"
proof -
  have rng: "in_range (perm_of L) (alength V)"
    using v len by (simp add: valid_permutation_def)
  obtain W where W: "permuteVector L V = Inr W" "alength W = alength V" "akind W = akind V"
    and at: "\<forall>i<alength V.
       (\<forall>k. i < k \<and> k < alength V \<longrightarrow> perm_of L ! k \<noteq> perm_of L ! i) \<longrightarrow>
       aget W (perm_of L ! i) = aget V (int i)"
    using permuteVector_result [OF cp rng len [symmetric]] by blast
  have "aget W (perm_of L ! i) = aget V (int i)" if i: "i < alength V" for i
  proof -
    have "\<forall>k. i < k \<and> k < alength V \<longrightarrow> perm_of L ! k \<noteq> perm_of L ! i"
      using valid_permutation_inj [OF v] i len by (metis less_irrefl)
    then show ?thesis using at i by simp
  qed
  then show ?thesis using W by blast
qed

lemma unpermuteVector_copying_contract:
  assumes v: "valid_permutation (perm_of L)" and len: "alength V = length (perm_of L)"
    and cp: "copying V"
  shows "\<exists>W. unpermuteVector L V = Inr W \<and> alength W = alength V \<and> akind W = akind V \<and>
    (\<forall>i<alength V. aget W (int i) = aget V (perm_of L ! i))"
proof -
  have rng: "in_range (perm_of L) (alength V)"
    using v len by (simp add: valid_permutation_def)
  show ?thesis using unpermuteVector_result [OF cp rng len [symmetric]] .
qed

lemma round_trip_copying:
  assumes v: "valid_permutation (perm_of L)"
    and lenV: "alength V = length (perm_of L)" and cpV: "copying V"
  shows "\<exists>U. permuteVector L V = Inr U \<and> unpermuteVector L U = Inr V"
    and "\<exists>U. unpermuteVector L V = Inr U \<and> permuteVector L U = Inr V"
proof -
  obtain U where U: "permuteVector L V = Inr U" "alength U = alength V" "akind U = akind V"
    and Uat: "\<forall>i<alength V. aget U (perm_of L ! i) = aget V (int i)"
    using permuteVector_copying_contract [OF v lenV cpV] by blast
  have cpU: "copying U" using copying_kind [OF U(3)] cpV by simp
  have lenU: "alength U = length (perm_of L)" using U(2) lenV by simp
  obtain X where X: "unpermuteVector L U = Inr X" "alength X = alength U" "akind X = akind U"
    and Xat: "\<forall>i<alength U. aget X (int i) = aget U (perm_of L ! i)"
    using unpermuteVector_copying_contract [OF v lenU cpU] by blast
  have "X = V"
  proof (rule jsarray_eqI)
    show "akind X = akind V" using X(3) U(3) by simp
    show "alength X = alength V" using X(2) U(2) by simp
    fix j assume "j < alength X"
    then have j: "j < alength V" using X(2) U(2) by simp
    then show "aget X (int j) = aget V (int j)" using Xat Uat U(2) by simp
  qed
  then show "\<exists>U. permuteVector L V = Inr U \<and> unpermuteVector L U = Inr V"
    using U(1) X(1) by blast
  obtain U' where U': "unpermuteVector L V = Inr U'" "alength U' = alength V"
      "akind U' = akind V"
    and U'at: "\<forall>i<alength V. aget U' (int i) = aget V (perm_of L ! i)"
    using unpermuteVector_copying_contract [OF v lenV cpV] by blast
  have cpU': "copying U'" using copying_kind [OF U'(3)] cpV by simp
  have lenU': "alength U' = length (perm_of L)" using U'(2) lenV by simp
  obtain Y where Y: "permuteVector L U' = Inr Y" "alength Y = alength U'" "akind Y = akind U'"
    and Yat: "\<forall>i<alength U'. aget Y (perm_of L ! i) = aget U' (int i)"
    using permuteVector_copying_contract [OF v lenU' cpU'] by blast
  have "Y = V"
  proof (rule jsarray_eqI)
    show "akind Y = akind V" using Y(3) U'(3) by simp
    show "alength Y = alength V" using Y(2) U'(2) by simp
    fix j assume "j < alength Y"
    then have j: "j < length (perm_of L)" using Y(2) U'(2) lenV by simp
    obtain i where i: "i < length (perm_of L)" "perm_of L ! i = int j"
      using valid_permutation_onto [OF v j] by blast
    have "aget Y (perm_of L ! i) = aget U' (int i)" using Yat i(1) lenU' by simp
    also have "\<dots> = aget V (perm_of L ! i)" using U'at i(1) lenV by simp
    finally show "aget Y (int j) = aget V (int j)" using i(2) by simp
  qed
  then show "\<exists>U. unpermuteVector L V = Inr U \<and> permuteVector L U = Inr V"
    using U'(1) Y(1) by blast
qed

section \<open>The loops of updatePermutation\<close>

lemma same_loop_iff:
  "same_loop perm old js = (\<forall>i\<in>set js. typed_get old (int i) = Some (perm ! i))"
  by (induction js) simp_all

lemma same_loop_equal:
  assumes "length old = length perm"
  shows "same_loop perm old [0..<length perm] = (old = perm)"
proof -
  have "same_loop perm old [0..<length perm] = (\<forall>i<length perm. old ! i = perm ! i)"
    using assms by (auto simp add: same_loop_iff typed_get_def)
  also have "\<dots> = (old = perm)"
    using assms list_eq_iff_nth_eq [of old perm] by simp
  finally show ?thesis .
qed

text \<open>
  The second loop is the loop of \<open>permuteVector\<close> run on \<open>old\<close> as values, \<open>old\<close>
  being a typed array of integers.
\<close>

lemma update_loop_permute_loop:
  "permute_loop perm (TypedArray 0 old) k = TypedArray 0 (update_loop perm old k)"
proof (induction k)
  case 0
  then show ?case by (simp add: permute_loop_def update_loop_def)
next
  case (Suc k)
  have "update_loop perm old (Suc k) =
      typed_set 0 (update_loop perm old k) (perm ! k) (typed_get old (int k))"
    by (simp add: update_loop_def)
  then show ?case using Suc by (simp add: permute_loop_Suc awrite_def)
qed


lemma update_body_eq:
  "update_body perm old =
     (if same_loop perm old [0..<length perm] then None
      else Some (update_loop perm old (length perm)))"
  by (simp add: update_body_def update_loop_def)

lemma updatePermutation_checked:
  "length old = checked_length L \<Longrightarrow>
     updatePermutation L old = Inr (update_body (perm_of L) old)"
  "length old \<noteq> checked_length L \<Longrightarrow>
     updatePermutation L old =
       Inl (LengthMismatch (case L of Matrix m \<Rightarrow> rows_message | Perm p \<Rightarrow> length_message))"
  by (cases L; simp add: updatePermutation_def checked_length_def perm_of_def)+

text \<open>With equal lengths, the result is \<open>null\<close> exactly for equal arrays.\<close>

lemma updatePermutation_result:
  assumes "well_formed L" and "length old = length (perm_of L)"
  shows "updatePermutation L old =
     Inr (if old = perm_of L then None
          else Some (update_loop (perm_of L) old (length (perm_of L))))"
proof -
  have "length old = checked_length L" using assms by (simp add: well_formed_def)
  then show ?thesis
    using same_loop_equal [OF assms(2)]
    by (simp add: updatePermutation_checked(1) update_body_eq)
qed

lemma typed_nth:
  "aget (TypedArray u ys) x = aget (TypedArray u' zs) y \<Longrightarrow>
   0 \<le> x \<Longrightarrow> nat x < length ys \<Longrightarrow> 0 \<le> y \<Longrightarrow> nat y < length zs \<Longrightarrow>
   ys ! nat x = zs ! nat y"
  by (simp add: typed_get_def)

text \<open>The elements of the array that \<open>updatePermutation\<close> builds, for entries in range.\<close>

lemma update_loop_result:
  assumes rng: "in_range perm (length old)" and len: "length perm = length old"
  defines "Q \<equiv> update_loop perm old (length perm)"
  shows "length Q = length old"
    and "\<And>j. j < length old \<Longrightarrow> (\<forall>i<length old. perm ! i \<noteq> int j) \<Longrightarrow> Q ! j = old ! j"
    and "\<And>i. i < length old \<Longrightarrow>
           (\<forall>k. i < k \<and> k < length old \<longrightarrow> perm ! k \<noteq> perm ! i) \<Longrightarrow>
           Q ! nat (perm ! i) = old ! i"
proof -
  let ?V = "TypedArray 0 old"
  have rng': "in_range perm (alength ?V)" and len': "length perm \<le> alength ?V"
    using rng len by simp_all
  have W: "permute_loop perm ?V (length perm) = TypedArray 0 Q"
    unfolding Q_def by (rule update_loop_permute_loop)
  note inv = permute_loop_inv [OF len' rng', of "length perm", unfolded W]
  show lq: "length Q = length old" using inv by simp
  show "Q ! j = old ! j" if j: "j < length old" and no: "\<forall>i<length old. perm ! i \<noteq> int j" for j
  proof -
    have "aget (TypedArray 0 Q) (int j) = aget ?V (int j)"
      using inv no len by simp
    then show ?thesis using typed_nth [of 0 Q "int j" 0 old "int j"] j lq by simp
  qed
  show "Q ! nat (perm ! i) = old ! i"
    if i: "i < length old"
      and later: "\<forall>k. i < k \<and> k < length old \<longrightarrow> perm ! k \<noteq> perm ! i" for i
  proof -
    have "aget (TypedArray 0 Q) (perm ! i) = aget ?V (int i)"
      using inv i later len by simp
    moreover have "0 \<le> perm ! i" "nat (perm ! i) < length Q"
      using in_range_nth [OF rng, of i] i len lq by simp_all
    ultimately show ?thesis using typed_nth [of 0 Q "perm ! i" 0 old "int i"] i by simp
  qed
qed

section \<open>The store when slice() makes a copy: only the new array is written\<close>

lemma typed_elems_eq:
  "(case a of TypedArray u P \<Rightarrow> True | _ \<Rightarrow> False) \<Longrightarrow> \<exists>u. a = TypedArray u (typed_elems a)"
  by (cases a) simp_all

lemma heap_slice_copying: "copying (h ! v) \<Longrightarrow> heap_slice h v = (h @ [h ! v], length h)"
  by (simp add: heap_slice_def copying_slice)

text \<open>
  A loop whose callback writes the array last allocated and nothing else leaves the
  store below it as it was, and changes that array as the loop on values does.
\<close>

lemma forEach_last:
  assumes p: "p < length h0" and tp: "h0 ! p = TypedArray u P"
    and cb: "\<And>c x i. callback (h0 @ [c]) x i =
                (case g c x i of Inl e \<Rightarrow> Inl e | Inr c' \<Rightarrow> Inr (h0 @ [c']))"
  shows "forEach (h0 @ [c]) p callback =
     (case for_each (\<lambda>c i. g c (P ! i) i) c [0..<length P] of (c', thrown) \<Rightarrow> (h0 @ [c'], thrown))"
proof -
  let ?F = "\<lambda>h i. case heap_read h p (int i) of Some x \<Rightarrow> callback h x i | None \<Rightarrow> Inr h"
  have step: "?F (h0 @ [c']) k =
      (case g c' (P ! k) k of Inl e \<Rightarrow> Inl e | Inr c'' \<Rightarrow> Inr (h0 @ [c'']))"
    if "k < length P" for c' k
  proof -
    have "heap_read (h0 @ [c']) p (int k) = Some (P ! k)"
      using p tp that by (simp add: heap_read_def nth_append typed_get_def)
    then show ?thesis using cb by simp
  qed
  have loop: "\<forall>j\<in>set js. j < length P \<Longrightarrow>
      for_each ?F (h0 @ [c]) js =
      (case for_each (\<lambda>c i. g c (P ! i) i) c js of (c', thrown) \<Rightarrow> (h0 @ [c'], thrown))"
    for js c
  proof (induction js arbitrary: c)
    case Nil
    then show ?case by simp
  next
    case (Cons j js)
    then have j: "j < length P" and rest: "\<forall>j\<in>set js. j < length P" by simp_all
    show ?case
    proof (cases "g c (P ! j) j")
      case (Inl e)
      then show ?thesis using step [OF j, of c] by simp
    next
      case (Inr c')
      then show ?thesis using step [OF j, of c] Cons.IH [OF rest, of c'] by simp
    qed
  qed
  have "alength ((h0 @ [c]) ! p) = length P" using p tp by (simp add: nth_append)
  then show ?thesis using loop [of "[0..<length P]" c] by (simp add: forEach_def)
qed

lemma write_last:
  "v < length h0 \<Longrightarrow>
   heap_write (h0 @ [c]) (length h0) x (heap_read (h0 @ [c]) v y) =
     (case aset c x (aget (h0 ! v) y) of Inl e \<Rightarrow> Inl e | Inr c' \<Rightarrow> Inr (h0 @ [c']))"
  by (simp add: heap_write_def heap_read_def nth_append split: sum.splits)

lemma perm_of_layered_at: "perm_of (layered_at h L) = typed_elems (h ! perm_addr L)"
  by (cases L) (simp_all add: perm_of_def layered_at_def perm_addr_def)

lemma permuteVector_unfold:
  "copying V \<Longrightarrow>
   permuteVector L V =
     (case for_each (\<lambda>copy i. aset copy (perm_of L ! i) (aget V (int i))) V
             [0..<length (perm_of L)]
      of (copy, None) \<Rightarrow> Inr copy | (copy, Some e) \<Rightarrow> Inl e)"
  by (cases L) (simp_all add: permuteVector_def copying_slice perm_of_def Let_def)

lemma unpermuteVector_unfold:
  "copying V \<Longrightarrow>
   unpermuteVector L V =
     (case for_each (\<lambda>copy i. aset copy (int i) (aget V (perm_of L ! i))) V
             [0..<length (perm_of L)]
      of (copy, None) \<Rightarrow> Inr copy | (copy, Some e) \<Rightarrow> Inl e)"
  by (cases L) (simp_all add: unpermuteVector_def copying_slice perm_of_def Let_def)

text \<open>
  When \<^verbatim>\<open>slice()\<close> makes a copy, the functions on the store allocate one array and
  write no other; when nothing is thrown, the new array is that of the functions on
  values.
\<close>

lemma permuteVector_heap_copying:
  assumes wt: "well_typed h L v" and cp: "copying (h ! v)"
  shows "\<exists>c. permuteVector_heap h L v =
            Some (h @ [c], case permuteVector (layered_at h L) (h ! v) of
                             Inl e \<Rightarrow> Inl e | Inr W \<Rightarrow> Inr (length h)) \<and>
          (\<forall>W. permuteVector (layered_at h L) (h ! v) = Inr W \<longrightarrow> c = W)"
proof -
  define p where "p = perm_addr L"
  define P where "P = typed_elems (h ! p)"
  have p: "p < length h" and v: "v < length h"
    and "case h ! p of TypedArray u P \<Rightarrow> True | _ \<Rightarrow> False"
    using wt by (simp_all add: well_typed_def p_def)
  then obtain u where tp: "h ! p = TypedArray u P"
    using typed_elems_eq [of "h ! p"] by (auto simp add: P_def)
  have fe: "forEach (h @ [h ! v]) p
          (\<lambda>h' x i. heap_write h' (length h) x (heap_read h' v (int i))) =
        (case for_each (\<lambda>c i. aset c (P ! i) (aget (h ! v) (int i))) (h ! v) [0..<length P]
         of (c', thrown) \<Rightarrow> (h @ [c'], thrown))"
    using forEach_last [OF p tp, of _ "\<lambda>c x i. aset c x (aget (h ! v) (int i))"] write_last [OF v]
    by simp
  obtain c thrown where r: "for_each (\<lambda>c i. aset c (P ! i) (aget (h ! v) (int i))) (h ! v)
      [0..<length P] = (c, thrown)"
    by (cases "for_each (\<lambda>c i. aset c (P ! i) (aget (h ! v) (int i))) (h ! v) [0..<length P]")
  have pv: "permuteVector (layered_at h L) (h ! v) =
      (case thrown of None \<Rightarrow> Inr c | Some e \<Rightarrow> Inl e)"
    using permuteVector_unfold [OF cp, of "layered_at h L"] r
    by (simp add: perm_of_layered_at p_def P_def split: option.splits)
  have "permuteVector_heap h L v =
      Some (h @ [c], case thrown of None \<Rightarrow> Inr (length h) | Some e \<Rightarrow> Inl e)"
    using wt fe r
    by (simp add: permuteVector_heap_def heap_slice_copying [OF cp] p_def split: option.splits)
  then show ?thesis using pv by (cases thrown) auto
qed

lemma unpermuteVector_heap_copying:
  assumes wt: "well_typed h L v" and cp: "copying (h ! v)"
  shows "\<exists>c. unpermuteVector_heap h L v =
            Some (h @ [c], case unpermuteVector (layered_at h L) (h ! v) of
                             Inl e \<Rightarrow> Inl e | Inr W \<Rightarrow> Inr (length h)) \<and>
          (\<forall>W. unpermuteVector (layered_at h L) (h ! v) = Inr W \<longrightarrow> c = W)"
proof -
  define p where "p = perm_addr L"
  define P where "P = typed_elems (h ! p)"
  have p: "p < length h" and v: "v < length h"
    and "case h ! p of TypedArray u P \<Rightarrow> True | _ \<Rightarrow> False"
    using wt by (simp_all add: well_typed_def p_def)
  then obtain u where tp: "h ! p = TypedArray u P"
    using typed_elems_eq [of "h ! p"] by (auto simp add: P_def)
  have fe: "forEach (h @ [h ! v]) p
          (\<lambda>h' x i. heap_write h' (length h) (int i) (heap_read h' v x)) =
        (case for_each (\<lambda>c i. aset c (int i) (aget (h ! v) (P ! i))) (h ! v) [0..<length P]
         of (c', thrown) \<Rightarrow> (h @ [c'], thrown))"
    using forEach_last [OF p tp, of _ "\<lambda>c x i. aset c (int i) (aget (h ! v) x)"] write_last [OF v]
    by simp
  obtain c thrown where r: "for_each (\<lambda>c i. aset c (int i) (aget (h ! v) (P ! i))) (h ! v)
      [0..<length P] = (c, thrown)"
    by (cases "for_each (\<lambda>c i. aset c (int i) (aget (h ! v) (P ! i))) (h ! v) [0..<length P]")
  have pv: "unpermuteVector (layered_at h L) (h ! v) =
      (case thrown of None \<Rightarrow> Inr c | Some e \<Rightarrow> Inl e)"
    using unpermuteVector_unfold [OF cp, of "layered_at h L"] r
    by (simp add: perm_of_layered_at p_def P_def split: option.splits)
  have "unpermuteVector_heap h L v =
      Some (h @ [c], case thrown of None \<Rightarrow> Inr (length h) | Some e \<Rightarrow> Inl e)"
    using wt fe r
    by (simp add: unpermuteVector_heap_def heap_slice_copying [OF cp] p_def split: option.splits)
  then show ?thesis using pv by (cases thrown) auto
qed

lemma keeps_append: "keeps h (h @ hs)"
  by (simp add: keeps_def)

lemma keeps_nth: "keeps h h' \<Longrightarrow> a < length h \<Longrightarrow> h' ! a = h ! a"
  by (metis keeps_def nth_take)

lemma same_loop_heap_eq:
  assumes "h ! p = TypedArray u P" and "h ! old = TypedArray u' oldP"
  shows "\<forall>i\<in>set js. i < length P \<Longrightarrow> same_loop_heap h p old js = same_loop P oldP js"
proof (induction js)
  case Nil
  then show ?case by simp
next
  case (Cons index rest)
  then have "heap_read h p (int index) = Some (P ! index)"
    using assms(1) by (simp add: heap_read_def typed_get_def)
  moreover have "heap_read h old (int index) = typed_get oldP (int index)"
    using assms(2) by (simp add: heap_read_def)
  ultimately show ?case using Cons by simp
qed

text \<open>
  On an \<^verbatim>\<open>Int32Array\<close> as \<open>old\<close>, \<open>updatePermutation\<close> on the store does what
  \<open>updatePermutation\<close> on values does, and allocates only the array it returns.
\<close>

lemma updatePermutation_heap_eq:
  assumes wt: "well_typed h L old" and to: "h ! old = TypedArray 0 oldP"
  shows "updatePermutation_heap h L old =
     Some (case updatePermutation (layered_at h L) oldP of
             Inl e \<Rightarrow> (h, Inl e)
           | Inr None \<Rightarrow> (h, Inr None)
           | Inr (Some Q) \<Rightarrow> (h @ [TypedArray 0 Q], Inr (Some (length h))))"
proof -
  define p where "p = perm_addr L"
  define P where "P = typed_elems (h ! p)"
  have p: "p < length h" and v: "old < length h"
    and "case h ! p of TypedArray u P \<Rightarrow> True | _ \<Rightarrow> False"
    using wt by (simp_all add: well_typed_def p_def)
  then obtain u where tp: "h ! p = TypedArray u P"
    using typed_elems_eq [of "h ! p"] by (auto simp add: P_def)
  have cp: "copying (h ! old)" using to by (simp add: copying_def slice_def)
  have same: "same_loop_heap h p old [0..<length P] = same_loop P oldP [0..<length P]"
    using same_loop_heap_eq [OF tp to, of "[0..<length P]"] by simp
  have "for_each (\<lambda>c i. aset c (P ! i) (aget (TypedArray 0 oldP) (int i))) (TypedArray 0 oldP)
          [0..<length P] =
        (foldl (\<lambda>c i. awrite c (P ! i) (aget (TypedArray 0 oldP) (int i))) (TypedArray 0 oldP)
          [0..<length P], None)"
  proof (rule for_each_foldl [where ok = "\<lambda>s. akind s = Typed 0"])
    fix s :: "int jsarray" and j
    assume "akind s = Typed 0"
    then show "aset s (P ! j) (aget (TypedArray 0 oldP) (int j)) =
        Inr (awrite s (P ! j) (aget (TypedArray 0 oldP) (int j))) \<and>
        akind (awrite s (P ! j) (aget (TypedArray 0 oldP) (int j))) = Typed 0"
      by (simp add: aset_awrite akind_awrite)
  qed simp
  then have fold: "for_each (\<lambda>c i. aset c (P ! i) (aget (TypedArray 0 oldP) (int i)))
          (TypedArray 0 oldP) [0..<length P] =
        (TypedArray 0 (update_loop P oldP (length P)), None)"
    using update_loop_permute_loop [of P oldP "length P"] by (simp add: permute_loop_def)
  have loop: "forEach (h @ [h ! old]) p
          (\<lambda>h' x i. heap_write h' (length h) x (heap_read h' old (int i))) =
        (h @ [TypedArray 0 (update_loop P oldP (length P))], None)"
    using forEach_last [OF p tp, of _ "\<lambda>c x i. aset c x (aget (h ! old) (int i))"]
      write_last [OF v] fold to
    by simp
  have alen: "alength (h ! p) = length P" and pe: "typed_elems (h ! p) = P"
    using tp by simp_all
  show ?thesis
  proof (cases L)
    case (MatrixRef q n)
    then have q: "q = p" by (simp add: p_def perm_addr_def)
    show ?thesis
      using wt to loop same heap_slice_copying [OF cp]
      by (simp add: MatrixRef q updatePermutation_heap_def updatePermutation_def layered_at_def
          perm_addr_def update_body_eq alen pe)
  next
    case (PermRef q)
    then have q: "q = p" by (simp add: p_def perm_addr_def)
    show ?thesis
      using wt to loop same heap_slice_copying [OF cp]
      by (simp add: PermRef q updatePermutation_heap_def updatePermutation_def layered_at_def
          perm_addr_def update_body_eq alen pe)
  qed
qed

section \<open>The store when slice() makes a view: the values are written\<close>

lemma view_buffer: "\<not> copying a \<Longrightarrow> \<exists>u ys. a = Buffer u ys"
  by (cases a) (simp_all add: copying_def slice_def)

lemma heap_slice_view: "\<not> copying (h ! v) \<Longrightarrow> heap_slice h v = (h, v)"
  by (auto simp add: heap_slice_def copying_def slice_def split: jsarray.splits)

text \<open>
  A loop whose callback writes the array at one address and nothing else changes the
  store at that address only, as the loop on values does with its own array for values.
\<close>

lemma forEach_at:
  assumes p: "p < length h" and v: "v < length h" and pv: "p \<noteq> v"
    and tp: "h ! p = TypedArray u P"
    and cb: "\<And>c x i. callback (h[v := c]) x i =
                (case g c x i of Inl e \<Rightarrow> Inl e | Inr c' \<Rightarrow> Inr (h[v := c']))"
  shows "forEach h p callback =
     (case for_each (\<lambda>c i. g c (P ! i) i) (h ! v) [0..<length P] of
        (c', thrown) \<Rightarrow> (h[v := c'], thrown))"
proof -
  let ?F = "\<lambda>h i. case heap_read h p (int i) of Some x \<Rightarrow> callback h x i | None \<Rightarrow> Inr h"
  have step: "?F (h[v := c']) k =
      (case g c' (P ! k) k of Inl e \<Rightarrow> Inl e | Inr c'' \<Rightarrow> Inr (h[v := c'']))"
    if "k < length P" for c' k
  proof -
    have "heap_read (h[v := c']) p (int k) = Some (P ! k)"
      using p pv tp that by (simp add: heap_read_def typed_get_def)
    then show ?thesis using cb by simp
  qed
  have loop: "\<forall>j\<in>set js. j < length P \<Longrightarrow>
      for_each ?F (h[v := c]) js =
      (case for_each (\<lambda>c i. g c (P ! i) i) c js of (c', thrown) \<Rightarrow> (h[v := c'], thrown))"
    for js c
  proof (induction js arbitrary: c)
    case Nil
    then show ?case by simp
  next
    case (Cons j js)
    then have j: "j < length P" and rest: "\<forall>j\<in>set js. j < length P" by simp_all
    show ?case
    proof (cases "g c (P ! j) j")
      case (Inl e)
      then show ?thesis using step [OF j, of c] by simp
    next
      case (Inr c')
      then show ?thesis using step [OF j, of c] Cons.IH [OF rest, of c'] by simp
    qed
  qed
  have "alength (h ! p) = length P" using tp by simp
  then show ?thesis using loop [of "[0..<length P]" "h ! v"] by (simp add: forEach_def)
qed

lemma write_at:
  "v < length h \<Longrightarrow>
   heap_write (h[v := c]) v x (heap_read (h[v := c]) v y) =
     (case aset c x (aget c y) of Inl e \<Rightarrow> Inl e | Inr c' \<Rightarrow> Inr (h[v := c']))"
  by (simp add: heap_write_def heap_read_def split: sum.splits)

text \<open>
  When \<^verbatim>\<open>slice()\<close> makes a view, the functions on the store allocate nothing: they
  write the array of the function on values over the values passed, and return it at
  the address of these.
\<close>

lemma permuteVector_heap_view:
  assumes wt: "well_typed h L v" and vw: "\<not> copying (h ! v)"
  shows "permuteVector_heap h L v =
     Some (case permuteVector (layered_at h L) (h ! v) of
             Inl e \<Rightarrow> (h, Inl e) | Inr W \<Rightarrow> (h[v := W], Inr v))"
proof -
  define p where "p = perm_addr L"
  define P where "P = typed_elems (h ! p)"
  have p: "p < length h" and v: "v < length h"
    and "case h ! p of TypedArray u P \<Rightarrow> True | _ \<Rightarrow> False"
    using wt by (simp_all add: well_typed_def p_def)
  then obtain u where tp: "h ! p = TypedArray u P"
    using typed_elems_eq [of "h ! p"] by (auto simp add: P_def)
  obtain b ys where bf: "h ! v = Buffer b ys" using view_buffer [OF vw] by blast
  have pv: "p \<noteq> v" using tp bf by auto
  have sl: "slice (h ! v) = (h ! v, True)" using bf by (simp add: slice_def)
  have fe: "forEach h p (\<lambda>h' x i. heap_write h' v x (heap_read h' v (int i))) =
        (case for_each (\<lambda>c i. aset c (P ! i) (aget c (int i))) (h ! v) [0..<length P]
         of (c', thrown) \<Rightarrow> (h[v := c'], thrown))"
    using forEach_at [OF p v pv tp, of _ "\<lambda>c x i. aset c x (aget c (int i))"] write_at [OF v]
    by simp
  have nothrow: "for_each (\<lambda>c i. aset c (P ! i) (aget c (int i))) (h ! v) [0..<length P] =
      (foldl (\<lambda>c i. awrite c (P ! i) (aget c (int i))) (h ! v) [0..<length P], None)"
  proof (rule for_each_foldl [where ok = "\<lambda>s. akind s = NodeBuffer b"])
    fix s :: "int jsarray" and j
    assume "akind s = NodeBuffer b"
    then show "aset s (P ! j) (aget s (int j)) = Inr (awrite s (P ! j) (aget s (int j))) \<and>
        akind (awrite s (P ! j) (aget s (int j))) = NodeBuffer b"
      by (simp add: aset_awrite akind_awrite)
  qed (simp add: bf)
  have pvec: "permuteVector (layered_at h L) (h ! v) =
      Inr (foldl (\<lambda>c i. awrite c (P ! i) (aget c (int i))) (h ! v) [0..<length P])"
    using nothrow sl perm_of_layered_at [of h L]
    by (cases "layered_at h L")
      (simp_all add: permuteVector_def perm_of_def Let_def p_def P_def)
  show ?thesis
    using wt fe nothrow pvec
    by (simp add: permuteVector_heap_def heap_slice_view [OF vw] p_def)
qed

lemma unpermuteVector_heap_view:
  assumes wt: "well_typed h L v" and vw: "\<not> copying (h ! v)"
  shows "unpermuteVector_heap h L v =
     Some (case unpermuteVector (layered_at h L) (h ! v) of
             Inl e \<Rightarrow> (h, Inl e) | Inr W \<Rightarrow> (h[v := W], Inr v))"
proof -
  define p where "p = perm_addr L"
  define P where "P = typed_elems (h ! p)"
  have p: "p < length h" and v: "v < length h"
    and "case h ! p of TypedArray u P \<Rightarrow> True | _ \<Rightarrow> False"
    using wt by (simp_all add: well_typed_def p_def)
  then obtain u where tp: "h ! p = TypedArray u P"
    using typed_elems_eq [of "h ! p"] by (auto simp add: P_def)
  obtain b ys where bf: "h ! v = Buffer b ys" using view_buffer [OF vw] by blast
  have pv: "p \<noteq> v" using tp bf by auto
  have sl: "slice (h ! v) = (h ! v, True)" using bf by (simp add: slice_def)
  have fe: "forEach h p (\<lambda>h' x i. heap_write h' v (int i) (heap_read h' v x)) =
        (case for_each (\<lambda>c i. aset c (int i) (aget c (P ! i))) (h ! v) [0..<length P]
         of (c', thrown) \<Rightarrow> (h[v := c'], thrown))"
    using forEach_at [OF p v pv tp, of _ "\<lambda>c x i. aset c (int i) (aget c x)"] write_at [OF v]
    by simp
  have nothrow: "for_each (\<lambda>c i. aset c (int i) (aget c (P ! i))) (h ! v) [0..<length P] =
      (foldl (\<lambda>c i. awrite c (int i) (aget c (P ! i))) (h ! v) [0..<length P], None)"
  proof (rule for_each_foldl [where ok = "\<lambda>s. akind s = NodeBuffer b"])
    fix s :: "int jsarray" and j
    assume "akind s = NodeBuffer b"
    then show "aset s (int j) (aget s (P ! j)) = Inr (awrite s (int j) (aget s (P ! j))) \<and>
        akind (awrite s (int j) (aget s (P ! j))) = NodeBuffer b"
      by (simp add: aset_awrite akind_awrite)
  qed (simp add: bf)
  have pvec: "unpermuteVector (layered_at h L) (h ! v) =
      Inr (foldl (\<lambda>c i. awrite c (int i) (aget c (P ! i))) (h ! v) [0..<length P])"
    using nothrow sl perm_of_layered_at [of h L]
    by (cases "layered_at h L")
      (simp_all add: unpermuteVector_def perm_of_def Let_def p_def P_def)
  show ?thesis
    using wt fe nothrow pvec
    by (simp add: unpermuteVector_heap_def heap_slice_view [OF vw] p_def)
qed

section \<open>The mappers on a Buffer\<close>

text \<open>
  The scenarios of the specification, on plain arrays: \<open>permuteVector\<close> takes
  \<open>[10, 20, 30, 40]\<close> to \<open>[20, 40, 10, 30]\<close> under \<open>P = [2, 0, 3, 1]\<close>, and
  \<open>unpermuteVector\<close> takes it back.
\<close>

lemma mapper_scenarios:
  "permuteVector (Perm [2, 0, 3, 1]) (Array [Some (10::int), Some 20, Some 30, Some 40]) =
     Inr (Array [Some 20, Some 40, Some 10, Some 30])"
  "unpermuteVector (Perm [2, 0, 3, 1]) (Array [Some (20::int), Some 40, Some 10, Some 30]) =
     Inr (Array [Some 10, Some 20, Some 30, Some 40])"
  by (simp_all add: permuteVector_def unpermuteVector_def slice_def plain_set_def plain_get_def
      upt_rec)

text \<open>
  Claim C4. The claim is that \<open>permuteVector(P, V)\<close> returns a fresh vector \<open>W\<close> of length
  \<open>n\<close> with \<open>W[P[i]] = V[i]\<close> for every valid permutation \<open>P\<close> and every vector \<open>V\<close> of
  length \<open>n\<close>. For the valid permutation \<open>P = [1, 2, 0]\<close> and the \<^verbatim>\<open>Buffer\<close>
  \<open>V = [10, 20, 30]\<close> that vector is \<open>[30, 10, 20]\<close>; the code returns \<open>[10, 10, 10]\<close>,
  and returns it on the memory of \<open>V\<close>, at the address of \<open>V\<close> in the store.
\<close>

theorem permuteVector_on_buffer:
  "valid_permutation (perm_of (Perm [1, 2, 0])) \<and>
   alength (Buffer 0 [10, 20, 30::int]) = length (perm_of (Perm [1, 2, 0])) \<and>
   permuteVector (Perm [1, 2, 0]) (Buffer 0 [10, 20, 30::int]) = Inr (Buffer 0 [10, 10, 10]) \<and>
   aget (Buffer 0 [10, 10, 10]) (perm_of (Perm [1, 2, 0]) ! 1) \<noteq>
     aget (Buffer 0 [10, 20, 30::int]) 1 \<and>
   permuteVector_heap [TypedArray 0 [1, 2, 0], Buffer 0 [10, 20, 30]] (PermRef 0) 1 =
     Some ([TypedArray 0 [1, 2, 0], Buffer 0 [10, 10, 10]], Inr 1)"
  by (simp add: valid_permutation_def in_range_def perm_of_def permuteVector_def slice_def
      typed_get_def typed_set_def permuteVector_heap_def well_typed_def perm_addr_def
      heap_slice_def forEach_def heap_read_def heap_write_def upt_rec)

text \<open>
  Claim C5. The claim is that \<open>unpermuteVector(P, W)\<close> returns a fresh vector \<open>V\<close> of
  length \<open>n\<close> with \<open>V[i] = W[P[i]]\<close> for every valid permutation \<open>P\<close> and every vector
  \<open>W\<close> of length \<open>n\<close>. For the valid permutation \<open>P = [1, 2, 0]\<close> and the \<^verbatim>\<open>Buffer\<close>
  \<open>W = [10, 20, 30]\<close> that vector is \<open>[20, 30, 10]\<close>; the code returns \<open>[20, 30, 20]\<close>,
  and returns it on the memory of \<open>W\<close>, at the address of \<open>W\<close> in the store.
\<close>

theorem unpermuteVector_on_buffer:
  "valid_permutation (perm_of (Perm [1, 2, 0])) \<and>
   alength (Buffer 0 [10, 20, 30::int]) = length (perm_of (Perm [1, 2, 0])) \<and>
   unpermuteVector (Perm [1, 2, 0]) (Buffer 0 [10, 20, 30::int]) = Inr (Buffer 0 [20, 30, 20]) \<and>
   aget (Buffer 0 [20, 30, 20]) 2 \<noteq>
     aget (Buffer 0 [10, 20, 30::int]) (perm_of (Perm [1, 2, 0]) ! 2) \<and>
   unpermuteVector_heap [TypedArray 0 [1, 2, 0], Buffer 0 [10, 20, 30]] (PermRef 0) 1 =
     Some ([TypedArray 0 [1, 2, 0], Buffer 0 [20, 30, 20]], Inr 1)"
  by (simp add: valid_permutation_def in_range_def perm_of_def unpermuteVector_def slice_def
      typed_get_def typed_set_def unpermuteVector_heap_def well_typed_def perm_addr_def
      heap_slice_def forEach_def heap_read_def heap_write_def upt_rec)

text \<open>
  Claim C2. The claim is that \<open>unpermuteVector(P, permuteVector(P, V))\<close> is \<open>V\<close> and
  \<open>permuteVector(P, unpermuteVector(P, W))\<close> is \<open>W\<close> for every valid permutation \<open>P\<close> and
  all vectors \<open>V\<close> and \<open>W\<close> of its length. For \<open>P = [1, 2, 0]\<close> and the \<^verbatim>\<open>Buffer\<close>
  \<open>[10, 20, 30]\<close> the first round trip ends in \<open>[10, 10, 10]\<close> and the second in
  \<open>[20, 20, 20]\<close>; on the store, the two calls leave \<open>[10, 10, 10]\<close> where \<open>V\<close> was.
\<close>

theorem round_trip_on_buffer:
  "valid_permutation (perm_of (Perm [1, 2, 0])) \<and>
   alength (Buffer 0 [10, 20, 30::int]) = length (perm_of (Perm [1, 2, 0])) \<and>
   permuteVector (Perm [1, 2, 0]) (Buffer 0 [10, 20, 30::int]) = Inr (Buffer 0 [10, 10, 10]) \<and>
   unpermuteVector (Perm [1, 2, 0]) (Buffer 0 [10, 10, 10::int]) = Inr (Buffer 0 [10, 10, 10]) \<and>
   unpermuteVector (Perm [1, 2, 0]) (Buffer 0 [10, 20, 30::int]) = Inr (Buffer 0 [20, 30, 20]) \<and>
   permuteVector (Perm [1, 2, 0]) (Buffer 0 [20, 30, 20::int]) = Inr (Buffer 0 [20, 20, 20]) \<and>
   permuteVector_heap [TypedArray 0 [1, 2, 0], Buffer 0 [10, 20, 30]] (PermRef 0) 1 =
     Some ([TypedArray 0 [1, 2, 0], Buffer 0 [10, 10, 10]], Inr 1) \<and>
   unpermuteVector_heap [TypedArray 0 [1, 2, 0], Buffer 0 [10, 10, 10]] (PermRef 0) 1 =
     Some ([TypedArray 0 [1, 2, 0], Buffer 0 [10, 10, 10]], Inr 1)"
  by (simp add: valid_permutation_def in_range_def perm_of_def permuteVector_def
      unpermuteVector_def slice_def typed_get_def typed_set_def permuteVector_heap_def
      unpermuteVector_heap_def well_typed_def perm_addr_def heap_slice_def forEach_def
      heap_read_def heap_write_def upt_rec)

section \<open>A malformed permutation\<close>

text \<open>
  Claim C10 says that for every array \<open>P\<close> of length \<open>n\<close> with entries in \<open>[0, n)\<close> and
  every vector \<open>V\<close> of length \<open>n\<close>, \<open>permuteVector(P, V)\<close> has no undefined entries and
  holds at position \<open>j\<close> the entry \<open>V[i]\<close> of the largest \<open>i\<close> with \<open>P[i] = j\<close>. For
  \<open>P = [1, 1, 0]\<close> and the \<^verbatim>\<open>Buffer\<close> \<open>V = [10, 20, 30]\<close> the largest index with
  \<open>P[i] = 1\<close> is \<open>1\<close>, and position \<open>1\<close> of the result \<open>[30, 10, 30]\<close> holds \<open>10\<close>, not
  \<open>V[1] = 20\<close>. For \<open>P = [0, 1, 2]\<close> and the plain array \<open>V = [10, undefined, 30]\<close> the
  result has the undefined entry of \<open>V\<close>.
\<close>

theorem malformed_counterexample:
  "in_range (perm_of (Perm [1, 1, 0])) (length (perm_of (Perm [1, 1, 0]))) \<and>
   alength (Buffer 0 [10, 20, 30::int]) = length (perm_of (Perm [1, 1, 0])) \<and>
   permuteVector (Perm [1, 1, 0]) (Buffer 0 [10, 20, 30::int]) = Inr (Buffer 0 [30, 10, 30]) \<and>
   perm_of (Perm [1, 1, 0]) ! 1 = 1 \<and> perm_of (Perm [1, 1, 0]) ! 2 \<noteq> 1 \<and>
   aget (Buffer 0 [30, 10, 30]) 1 \<noteq> aget (Buffer 0 [10, 20, 30::int]) 1 \<and>
   in_range (perm_of (Perm [0, 1, 2])) (length (perm_of (Perm [0, 1, 2]))) \<and>
   alength (Array [Some (10::int), None, Some 30]) = length (perm_of (Perm [0, 1, 2])) \<and>
   permuteVector (Perm [0, 1, 2]) (Array [Some (10::int), None, Some 30]) =
     Inr (Array [Some 10, None, Some 30]) \<and>
   \<not> all_defined (Array [Some (10::int), None, Some 30])"
  by (simp add: in_range_def perm_of_def permuteVector_def slice_def typed_get_def
      typed_set_def plain_get_def plain_set_def all_defined_def upt_rec)

text \<open>
  Claim C10, amended. For an array \<open>P\<close> of length \<open>n\<close> whose entries are in \<open>[0, n)\<close> (a
  bijection or not) and a vector \<open>V\<close> of length \<open>n\<close> whose \<^verbatim>\<open>slice()\<close> is a copy,
  \<open>permuteVector\<close> returns a vector of length \<open>n\<close> in which position \<open>j\<close> holds \<open>V[i]\<close>
  when \<open>i\<close> is the largest index with \<open>P[i] = j\<close>, and holds \<open>V[j]\<close> when no index has
  \<open>P[i] = j\<close>; it has no undefined entries when \<open>V\<close> has none.
\<close>

theorem permuteVector_malformed:
  assumes "in_range (perm_of L) (length (perm_of L))"
    and "alength V = length (perm_of L)"
    and "copying V"
  shows "\<exists>W. permuteVector L V = Inr W \<and>
    alength W = length (perm_of L) \<and>
    (all_defined V \<longrightarrow> all_defined W) \<and>
    (\<forall>j<length (perm_of L).
       (\<forall>i<length (perm_of L).
          perm_of L ! i = int j \<and> (\<forall>k<length (perm_of L). perm_of L ! k = int j \<longrightarrow> k \<le> i) \<longrightarrow>
          aget W (int j) = aget V (int i)) \<and>
       ((\<forall>i<length (perm_of L). perm_of L ! i \<noteq> int j) \<longrightarrow>
          aget W (int j) = aget V (int j)))"
proof -
  define P where "P = perm_of L"
  define n where "n = length P"
  have len: "length (perm_of L) = alength V" and nV: "alength V = n"
    using assms(2) by (simp_all add: n_def P_def)
  have rng: "in_range (perm_of L) (alength V)" using assms(1) assms(2) by simp
  obtain W where W: "permuteVector L V = Inr W" and lenW: "alength W = n"
    and un: "\<forall>j. (\<forall>i<n. P ! i \<noteq> j) \<longrightarrow> aget W j = aget V j"
    and at: "\<forall>i<n. (\<forall>k. i < k \<and> k < n \<longrightarrow> P ! k \<noteq> P ! i) \<longrightarrow> aget W (P ! i) = aget V (int i)"
    using permuteVector_result [OF assms(3) rng len] unfolding P_def [symmetric] nV by blast
  have last: "aget W (int j) = aget V (int i)"
    if i: "i < n" and ij: "P ! i = int j" and mx: "\<forall>k<n. P ! k = int j \<longrightarrow> k \<le> i" for i j
  proof -
    have "\<forall>k. i < k \<and> k < n \<longrightarrow> P ! k \<noteq> P ! i"
      using mx ij by (metis not_less)
    then have "aget W (P ! i) = aget V (int i)" using at i by simp
    then show ?thesis using ij by simp
  qed
  have none: "aget W (int j) = aget V (int j)" if "\<forall>i<n. P ! i \<noteq> int j" for j
    using un that by simp
  have def: "all_defined W" if dV: "all_defined V"
  proof -
    have "aget W (int j) \<noteq> None" if j: "j < alength W" for j
    proof (cases "\<exists>i<n. P ! i = int j")
      case True
      then obtain m where m: "m < n" "P ! m = int j" "\<forall>k<n. P ! k = int j \<longrightarrow> k \<le> m"
        using last_occurrence [of _ n P "int j"] by blast
      then have "aget W (int j) = aget V (int m)" using last by simp
      then show ?thesis using dV m(1) nV by (simp add: all_defined_iff)
    next
      case False
      then have "aget W (int j) = aget V (int j)" using none by simp
      then show ?thesis using dV j lenW nV by (simp add: all_defined_iff)
    qed
    then show ?thesis by (simp add: all_defined_iff)
  qed
  show ?thesis using W lenW def last none unfolding n_def P_def by blast
qed

theorem permuteVector_malformed_witness:
  "in_range (perm_of (Perm [1, 1, 0])) (length (perm_of (Perm [1, 1, 0]))) \<and>
   alength (Array [Some (10::int), None, Some 30]) = length (perm_of (Perm [1, 1, 0])) \<and>
   copying (Array [Some (10::int), None, Some 30]) \<and>
   \<not> valid_permutation (perm_of (Perm [1, 1, 0])) \<and>
   (\<exists>W. permuteVector (Perm [1, 1, 0]) (Array [Some (10::int), None, Some 30]) = Inr W \<and>
      alength W = 3 \<and> aget W 1 = None \<and> aget W 2 = Some 30) \<and>
   all_defined (TypedArray 0 [10, 20, 30::int]) \<and>
   (\<exists>W. permuteVector (Perm [1, 1, 0]) (TypedArray 0 [10, 20, 30::int]) = Inr W \<and>
      all_defined W \<and> aget W 1 = Some 20)"
proof -
  let ?L = "Perm [1, 1, 0]" and ?V = "Array [Some (10::int), None, Some 30]"
  let ?T = "TypedArray 0 [10, 20, 30::int]"
  have P: "perm_of ?L = [1, 1, 0]" by (simp add: perm_of_def)
  have l3: "length (perm_of ?L) = 3" by (simp add: P)
  have h1: "in_range (perm_of ?L) (length (perm_of ?L))"
    by (simp add: P in_range_def)
  have h2: "alength ?V = length (perm_of ?L)" and h2': "alength ?T = length (perm_of ?L)"
    by (simp_all add: P)
  have h3: "copying ?V" and h3': "copying ?T" by (simp_all add: copying_def slice_def)
  have dT: "all_defined ?T" by (simp add: all_defined_def)
  have nv: "\<not> valid_permutation (perm_of ?L)" by (simp add: P valid_permutation_def)
  have j1: "(1::nat) < 3" and j2: "(2::nat) < 3" by simp_all
  have is1: "perm_of ?L ! 1 = int 1" by (simp add: P)
  have largest: "\<forall>k<3. perm_of ?L ! k = int 1 \<longrightarrow> k \<le> 1"
    unfolding P by (auto simp add: nth_Cons split: nat.splits)
  have absent: "\<forall>i<3. perm_of ?L ! i \<noteq> int 2"
    unfolding P by (auto simp add: nth_Cons split: nat.splits)
  obtain W where W: "permuteVector ?L ?V = Inr W" "alength W = 3"
    and Wat: "\<forall>j<3.
       (\<forall>i<3. perm_of ?L ! i = int j \<and> (\<forall>k<3. perm_of ?L ! k = int j \<longrightarrow> k \<le> i) \<longrightarrow>
          aget W (int j) = aget ?V (int i)) \<and>
       ((\<forall>i<3. perm_of ?L ! i \<noteq> int j) \<longrightarrow> aget W (int j) = aget ?V (int j))"
    using permuteVector_malformed [OF h1 h2 h3, unfolded l3] by blast
  have "aget W (int 1) = aget ?V (int 1)" using Wat j1 is1 largest by blast
  then have w1: "aget W 1 = None" by (simp add: plain_get_def)
  have "aget W (int 2) = aget ?V (int 2)" using Wat j2 absent by blast
  then have w2: "aget W 2 = Some 30" by (simp add: plain_get_def)
  obtain X where X: "permuteVector ?L ?T = Inr X" "all_defined ?T \<longrightarrow> all_defined X"
    and Xat: "\<forall>j<3.
       (\<forall>i<3. perm_of ?L ! i = int j \<and> (\<forall>k<3. perm_of ?L ! k = int j \<longrightarrow> k \<le> i) \<longrightarrow>
          aget X (int j) = aget ?T (int i)) \<and>
       ((\<forall>i<3. perm_of ?L ! i \<noteq> int j) \<longrightarrow> aget X (int j) = aget ?T (int j))"
    using permuteVector_malformed [OF h1 h2' h3', unfolded l3] by blast
  have "aget X (int 1) = aget ?T (int 1)" using Xat j1 is1 largest by blast
  then have x1: "aget X 1 = Some 20" by (simp add: typed_get_def)
  have dX: "all_defined X" using X(2) dT by simp
  show ?thesis using h1 h2 h3 nv W w1 w2 dT X(1) dX x1 by blast
qed

section \<open>What updatePermutation returns\<close>

text \<open>
  Claim C6. For arrays \<open>oldP\<close> and \<open>newP\<close> of equal length, \<open>updatePermutation(newP, oldP)\<close>
  returns \<^verbatim>\<open>null\<close> if and only if \<open>oldP[i] = newP[i]\<close> at every index \<open>i\<close>; in
  particular \<open>updatePermutation(P, P)\<close> returns \<^verbatim>\<open>null\<close> for every \<open>P\<close>.
\<close>

theorem noop_detection:
  "(well_formed L \<longrightarrow> length oldP = length (perm_of L) \<longrightarrow>
      (updatePermutation L oldP = Inr None) =
      (\<forall>i<length (perm_of L). oldP ! i = perm_of L ! i)) \<and>
   updatePermutation (Perm P) P = Inr None"
proof (intro conjI impI)
  assume wf: "well_formed L" and len: "length oldP = length (perm_of L)"
  have "(updatePermutation L oldP = Inr None) = (oldP = perm_of L)"
    using updatePermutation_result(1) [OF wf len] by simp
  also have "\<dots> = (\<forall>i<length (perm_of L). oldP ! i = perm_of L ! i)"
    using len list_eq_iff_nth_eq [of oldP "perm_of L"] by simp
  finally show "(updatePermutation L oldP = Inr None) =
      (\<forall>i<length (perm_of L). oldP ! i = perm_of L ! i)" .
next
  have "well_formed (Perm P)" "length P = length (perm_of (Perm P))" "perm_of (Perm P) = P"
    by (simp_all add: well_formed_def checked_length_def perm_of_def)
  then show "updatePermutation (Perm P) P = Inr None"
    using updatePermutation_result(1) [of "Perm P" P] by simp
qed

theorem noop_detection_witness:
  "well_formed (Perm [1, 0, 2, 3]) \<and>
   length [0, 1, 2, 3::int] = length (perm_of (Perm [1, 0, 2, 3])) \<and>
   updatePermutation (Perm [1, 0, 2, 3]) [0, 1, 2, 3] \<noteq> Inr None \<and>
   updatePermutation (Perm [1, 0, 2, 3]) [1, 0, 2, 3] = Inr None"
proof -
  let ?L = "Perm [1, 0, 2, 3]"
  have wf: "well_formed ?L" by (simp add: well_formed_def checked_length_def perm_of_def)
  have len: "length [0, 1, 2, 3::int] = length (perm_of ?L)" by (simp add: perm_of_def)
  have eq: "(updatePermutation ?L [0, 1, 2, 3] = Inr None) =
      (\<forall>i<length (perm_of ?L). [0, 1, 2, 3] ! i = perm_of ?L ! i)"
    using noop_detection [of ?L "[0, 1, 2, 3]"] wf len by blast
  have "0 < length (perm_of ?L)" "[0, 1, 2, 3::int] ! 0 \<noteq> perm_of ?L ! 0"
    by (simp_all add: perm_of_def)
  then have "\<not> (\<forall>i<length (perm_of ?L). [0, 1, 2, 3] ! i = perm_of ?L ! i)" by blast
  then have "updatePermutation ?L [0, 1, 2, 3] \<noteq> Inr None" using eq by simp
  moreover have "updatePermutation ?L [1, 0, 2, 3] = Inr None"
    using noop_detection [of ?L "[0, 1, 2, 3]" "[1, 0, 2, 3]"] by blast
  ultimately show ?thesis using wf len by blast
qed





section \<open>The composition law\<close>

text \<open>
  What holds of the array \<open>Q\<close> that \<open>updatePermutation(newP, oldP)\<close> returns for valid
  permutations: it is \<open>unpermuteVector\<close>, not \<open>permuteVector\<close>, that takes a vector in
  the order of \<open>oldP\<close> to the order of \<open>newP\<close> with it (for a vector whose \<^verbatim>\<open>slice()\<close>
  is a copy).
\<close>

lemma update_unpermute_law:
  assumes vo: "valid_permutation oldP" and vn: "valid_permutation newP"
    and len: "length oldP = length newP" and lenR: "alength R = length newP"
    and cp: "copying R"
    and res: "updatePermutation (Perm newP) oldP = Inr (Some Q)"
  shows "\<exists>U T. unpermuteVector (Perm oldP) R = Inr U \<and> permuteVector (Perm newP) U = Inr T \<and>
           unpermuteVector (Perm Q) R = Inr T"
proof -
  define n where "n = length newP"
  have pl [simp]: "perm_of (Perm X) = X" for X by (simp add: perm_of_def)
  have wf: "well_formed (Perm newP)" by (simp add: well_formed_def checked_length_def)
  have Q: "Q = update_loop newP oldP n"
    using updatePermutation_result [OF wf, of oldP] len res
    by (simp add: n_def split: if_splits)
  have rng: "in_range newP (length oldP)" and len': "length newP = length oldP"
    using vn len by (simp_all add: valid_permutation_def)
  have lQ: "length Q = n"
    using update_loop_result(1) [OF rng len'] Q len by (simp add: n_def)
  have at: "Q ! nat (newP ! i) = oldP ! i" if i: "i < n" for i
  proof -
    have "\<forall>k. i < k \<and> k < length oldP \<longrightarrow> newP ! k \<noteq> newP ! i"
      using valid_permutation_inj [OF vn] i len by (metis less_irrefl n_def)
    then show ?thesis
      using update_loop_result(3) [OF rng len', of i] i len Q by (simp add: n_def)
  qed
  have rngQ: "in_range (perm_of (Perm Q)) (alength R)"
  proof -
    have "0 \<le> Q ! j \<and> Q ! j < int n" if j: "j < n" for j
    proof -
      obtain i where i: "i < n" "newP ! i = int j"
        using valid_permutation_onto [OF vn, of j] j by (auto simp add: n_def)
      then have "Q ! j = oldP ! i" using at [of i] by simp
      then show ?thesis
        using in_range_nth [of oldP n i] vo len i(1)
        by (auto simp add: valid_permutation_def n_def)
    qed
    then show ?thesis using lQ lenR by (simp add: in_range_def list_all_length n_def)
  qed
  have lenQ: "length (perm_of (Perm Q)) = alength R" using lQ lenR by (simp add: n_def)
  have vo': "valid_permutation (perm_of (Perm oldP))" using vo by simp
  have lenO: "alength R = length (perm_of (Perm oldP))" using len lenR by simp
  obtain U where U: "unpermuteVector (Perm oldP) R = Inr U" "alength U = alength R"
      "akind U = akind R"
    and Uat: "\<forall>i<alength R. aget U (int i) = aget R (oldP ! i)"
    using unpermuteVector_copying_contract [OF vo' lenO cp] by auto
  have vn': "valid_permutation (perm_of (Perm newP))" using vn by simp
  have lenN: "alength U = length (perm_of (Perm newP))" using U(2) lenR by simp
  have cpU: "copying U" using copying_kind [OF U(3)] cp by simp
  obtain T where T: "permuteVector (Perm newP) U = Inr T" "alength T = alength U"
      "akind T = akind U"
    and Tat: "\<forall>i<alength U. aget T (newP ! i) = aget U (int i)"
    using permuteVector_copying_contract [OF vn' lenN cpU] by auto
  obtain X where X: "unpermuteVector (Perm Q) R = Inr X" "alength X = alength R"
      "akind X = akind R"
    and Xat: "\<forall>i<alength R. aget X (int i) = aget R (Q ! i)"
    using unpermuteVector_result [OF cp rngQ lenQ] by auto
  have "X = T"
  proof (rule jsarray_eqI)
    show "akind X = akind T" using X(3) T(3) U(3) by simp
    show "alength X = alength T" using X(2) T(2) U(2) by simp
    fix j assume "j < alength X"
    then have j: "j < n" using X(2) lenR by (simp add: n_def)
    obtain i where i: "i < n" "newP ! i = int j"
      using valid_permutation_onto [OF vn, of j] j by (auto simp add: n_def)
    have iR: "i < alength R" and jR: "j < alength R" and iU: "i < alength U"
      using i(1) j lenR U(2) by (simp_all add: n_def)
    have "aget X (int j) = aget R (Q ! j)" using Xat jR by simp
    also have "\<dots> = aget R (oldP ! i)" using at [OF i(1)] i(2) by simp
    also have "\<dots> = aget U (int i)" using Uat iR by simp
    also have "\<dots> = aget T (newP ! i)" using Tat iU by simp
    finally show "aget X (int j) = aget T (int j)" using i(2) by simp
  qed
  then show ?thesis using U(1) T(1) X(1) by blast
qed

text \<open>
  Claim C1. The law says that \<open>permuteVector(Q, R)\<close> equals
  \<open>permuteVector(newP, unpermuteVector(oldP, R))\<close> for \<open>Q = updatePermutation(newP, oldP)\<close>.
  At \<open>newP = [0, 1, 2]\<close>, \<open>oldP = [1, 2, 0]\<close> and \<open>R = [10, 20, 30]\<close>, all valid, the code
  returns \<open>Q = [1, 2, 0]\<close>, for which \<open>permuteVector(Q, R)\<close> is \<open>[30, 10, 20]\<close>, whereas the
  vector in the order of \<open>newP\<close> is \<open>[20, 30, 10]\<close>: \<open>unpermuteVector(oldP, R)\<close> is
  \<open>[20, 30, 10]\<close>, and \<open>permuteVector(newP, \<dots>)\<close> leaves it as it is.
\<close>

theorem composition_law_fails:
  "valid_permutation [0, 1, 2] \<and> valid_permutation [1, 2, 0] \<and>
   alength (Array [Some (10::int), Some 20, Some 30]) = length [0, 1, 2::int] \<and>
   updatePermutation (Perm [0, 1, 2]) [1, 2, 0] = Inr (Some [1, 2, 0]) \<and>
   permuteVector (Perm [1, 2, 0]) (Array [Some (10::int), Some 20, Some 30]) =
     Inr (Array [Some 30, Some 10, Some 20]) \<and>
   unpermuteVector (Perm [1, 2, 0]) (Array [Some (10::int), Some 20, Some 30]) =
     Inr (Array [Some 20, Some 30, Some 10]) \<and>
   permuteVector (Perm [0, 1, 2]) (Array [Some (20::int), Some 30, Some 10]) =
     Inr (Array [Some 20, Some 30, Some 10])"
  by (simp add: valid_permutation_def in_range_def updatePermutation_def update_body_def
      typed_get_def typed_set_def permuteVector_def unpermuteVector_def slice_def
      plain_get_def plain_set_def upt_rec)

section \<open>Inputs are not mutated, unless slice() makes a view\<close>

text \<open>
  When \<^verbatim>\<open>slice()\<close> makes a copy, a call of \<open>permuteVector\<close> or \<open>unpermuteVector\<close> leaves
  every array that was in the store as it was, whether it returns or throws, and an
  array returned is a new one; so does a call of \<open>updatePermutation\<close> on an
  \<^verbatim>\<open>Int32Array\<close>. The permutation and the values may be one and the same array.
\<close>

lemma frame_copying:
  assumes wt: "well_typed h L v" and cp: "copying (h ! v)"
  shows "\<exists>h' r. permuteVector_heap h L v = Some (h', r) \<and> keeps h h' \<and>
            (\<forall>a. r = Inr a \<longrightarrow> new_in h h' a \<and> a \<noteq> perm_addr L \<and> a \<noteq> v)"
    and "\<exists>h' r. unpermuteVector_heap h L v = Some (h', r) \<and> keeps h h' \<and>
            (\<forall>a. r = Inr a \<longrightarrow> new_in h h' a \<and> a \<noteq> perm_addr L \<and> a \<noteq> v)"
proof -
  have p: "perm_addr L < length h" and v: "v < length h"
    using wt by (simp_all add: well_typed_def)
  have frame: "keeps h (h @ [c]) \<and>
      (\<forall>a. (case r of Inl e \<Rightarrow> Inl e | Inr W \<Rightarrow> Inr (length h)) = Inr a \<longrightarrow>
         new_in h (h @ [c]) a \<and> a \<noteq> perm_addr L \<and> a \<noteq> v)"
    for c and r :: "error + int jsarray"
    using p v by (cases r) (auto simp add: keeps_append new_in_def)
  show "\<exists>h' r. permuteVector_heap h L v = Some (h', r) \<and> keeps h h' \<and>
            (\<forall>a. r = Inr a \<longrightarrow> new_in h h' a \<and> a \<noteq> perm_addr L \<and> a \<noteq> v)"
    using permuteVector_heap_copying [OF wt cp] frame by blast
  show "\<exists>h' r. unpermuteVector_heap h L v = Some (h', r) \<and> keeps h h' \<and>
            (\<forall>a. r = Inr a \<longrightarrow> new_in h h' a \<and> a \<noteq> perm_addr L \<and> a \<noteq> v)"
    using unpermuteVector_heap_copying [OF wt cp] frame by blast
qed

lemma frame_update:
  assumes wt: "well_typed h L v" and to: "h ! v = TypedArray 0 oldP"
  shows "\<exists>h' r. updatePermutation_heap h L v = Some (h', r) \<and> keeps h h' \<and>
            (\<forall>a. r = Inr (Some a) \<longrightarrow> new_in h h' a \<and> a \<noteq> perm_addr L \<and> a \<noteq> v)"
proof -
  have p: "perm_addr L < length h" and v: "v < length h"
    using wt by (simp_all add: well_typed_def)
  have same: "keeps h h" by (simp add: keeps_def)
  have ext: "keeps h (h @ [c]) \<and> new_in h (h @ [c]) (length h) \<and>
      length h \<noteq> perm_addr L \<and> length h \<noteq> v" for c
    using p v by (simp add: keeps_append new_in_def)
  show ?thesis
    using updatePermutation_heap_eq [OF wt to] same ext
    by (auto split: sum.splits option.splits)
qed

text \<open>
  Claim C9. The claim is that after every call the inputs are unchanged and an array
  returned is a fresh container. For the permutation \<open>[1, 2, 0]\<close> at address \<open>0\<close> and the
  \<^verbatim>\<open>Buffer\<close> \<open>[10, 20, 30]\<close> at address \<open>1\<close>, \<open>permuteVector\<close> leaves \<open>[10, 10, 10]\<close> at
  address \<open>1\<close> and \<open>unpermuteVector\<close> leaves \<open>[20, 30, 20]\<close> there: the input vector is
  overwritten, and what is returned is on its memory, at no new address.
\<close>

theorem buffer_input_mutated:
  "well_typed [TypedArray 0 [1, 2, 0], Buffer 0 [10, 20, 30]] (PermRef 0) 1 \<and>
   permuteVector_heap [TypedArray 0 [1, 2, 0], Buffer 0 [10, 20, 30]] (PermRef 0) 1 =
     Some ([TypedArray 0 [1, 2, 0], Buffer 0 [10, 10, 10]], Inr 1) \<and>
   \<not> keeps [TypedArray 0 [1, 2, 0], Buffer 0 [10, 20, 30]]
        [TypedArray 0 [1, 2, 0], Buffer 0 [10, 10, 10]] \<and>
   \<not> new_in [TypedArray 0 [1, 2, 0], Buffer 0 [10, 20, 30]]
        [TypedArray 0 [1, 2, 0], Buffer 0 [10, 10, 10]] 1 \<and>
   unpermuteVector_heap [TypedArray 0 [1, 2, 0], Buffer 0 [10, 20, 30]] (PermRef 0) 1 =
     Some ([TypedArray 0 [1, 2, 0], Buffer 0 [20, 30, 20]], Inr 1) \<and>
   \<not> keeps [TypedArray 0 [1, 2, 0], Buffer 0 [10, 20, 30]]
        [TypedArray 0 [1, 2, 0], Buffer 0 [20, 30, 20]] \<and>
   \<not> new_in [TypedArray 0 [1, 2, 0], Buffer 0 [10, 20, 30]]
        [TypedArray 0 [1, 2, 0], Buffer 0 [20, 30, 20]] 1"
  by (simp add: keeps_def new_in_def typed_get_def typed_set_def slice_def
      permuteVector_heap_def unpermuteVector_heap_def well_typed_def perm_addr_def
      heap_slice_def forEach_def heap_read_def heap_write_def upt_rec)

section \<open>The length check\<close>

text \<open>
  Claim C3 says that each of the three functions fails with a length mismatch when its
  two arrays differ in length. \<open>permuteVector\<close> and \<open>unpermuteVector\<close> have no check:
  for a permutation of length 2 and a plain array of length 1 both return the array
  \<open>[10, undefined]\<close>, on values and on the store.
\<close>

theorem length_validation_counterexample:
  "alength (Array [Some (10::int)]) \<noteq> length (perm_of (Perm [0, 1])) \<and>
   permuteVector (Perm [0, 1]) (Array [Some (10::int)]) = Inr (Array [Some 10, None]) \<and>
   unpermuteVector (Perm [0, 1]) (Array [Some (10::int)]) = Inr (Array [Some 10, None]) \<and>
   permuteVector_heap [TypedArray 0 [0, 1], Array [Some 10]] (PermRef 0) 1 =
     Some ([TypedArray 0 [0, 1], Array [Some 10], Array [Some 10, None]], Inr 2) \<and>
   unpermuteVector_heap [TypedArray 0 [0, 1], Array [Some 10]] (PermRef 0) 1 =
     Some ([TypedArray 0 [0, 1], Array [Some 10], Array [Some 10, None]], Inr 2)"
  by (simp add: perm_of_def permuteVector_def unpermuteVector_def slice_def plain_get_def
      plain_set_def max_index_def typed_get_def permuteVector_heap_def
      unpermuteVector_heap_def well_typed_def perm_addr_def heap_slice_def forEach_def
      heap_read_def heap_write_def upt_rec)

text \<open>
  Claim C3, amended. \<open>updatePermutation\<close> throws its length mismatch whenever the length
  of \<open>old\<close> differs from the length of the permutation vector (from \<^verbatim>\<open>numberOfRows()\<close>
  when a matrix is passed), and it throws before it allocates: the store is as it
  was.
\<close>

theorem update_length_check:
  "(length old \<noteq> checked_length L \<longrightarrow>
      updatePermutation L old =
        Inl (LengthMismatch (case L of Matrix m \<Rightarrow> rows_message | Perm p \<Rightarrow> length_message))) \<and>
   (well_typed h R v \<longrightarrow>
      alength (h ! v) \<noteq> (case R of MatrixRef p n \<Rightarrow> n | PermRef p \<Rightarrow> alength (h ! p)) \<longrightarrow>
      updatePermutation_heap h R v =
        Some (h, Inl (LengthMismatch
                (case R of MatrixRef p n \<Rightarrow> rows_message | PermRef p \<Rightarrow> length_message))))"
proof (intro conjI impI)
  assume "length old \<noteq> checked_length L"
  then show "updatePermutation L old =
        Inl (LengthMismatch (case L of Matrix m \<Rightarrow> rows_message | Perm p \<Rightarrow> length_message))"
    by (rule updatePermutation_checked(2))
next
  assume "well_typed h R v"
    and "alength (h ! v) \<noteq> (case R of MatrixRef p n \<Rightarrow> n | PermRef p \<Rightarrow> alength (h ! p))"
  then show "updatePermutation_heap h R v =
        Some (h, Inl (LengthMismatch
                (case R of MatrixRef p n \<Rightarrow> rows_message | PermRef p \<Rightarrow> length_message)))"
    by (cases R) (simp_all add: updatePermutation_heap_def)
qed

theorem update_length_check_witness:
  "length [0, 1, 2::int] \<noteq> checked_length (Perm [1, 0, 2, 3]) \<and>
   updatePermutation (Perm [1, 0, 2, 3]) [0, 1, 2] = Inl (LengthMismatch length_message) \<and>
   length [0, 1::int] \<noteq> checked_length (Matrix \<lparr>permutation = [1, 0, 2], numberOfRows = 3\<rparr>) \<and>
   updatePermutation (Matrix \<lparr>permutation = [1, 0, 2], numberOfRows = 3\<rparr>) [0, 1] =
     Inl (LengthMismatch rows_message) \<and>
   well_typed [TypedArray 0 [1, 0, 2, 3], TypedArray 0 [0, 1, 2]] (MatrixRef 0 4) 1 \<and>
   updatePermutation_heap [TypedArray 0 [1, 0, 2, 3], TypedArray 0 [0, 1, 2]] (MatrixRef 0 4) 1 =
     Some ([TypedArray 0 [1, 0, 2, 3], TypedArray 0 [0, 1, 2]], Inl (LengthMismatch rows_message))"
proof -
  let ?h = "[TypedArray 0 [1, 0, 2, 3], TypedArray 0 [0, 1, 2::int]]"
  let ?m = "Matrix \<lparr>permutation = [1, 0, 2], numberOfRows = 3\<rparr>"
  have h1: "length [0, 1, 2::int] \<noteq> checked_length (Perm [1, 0, 2, 3])"
    by (simp add: checked_length_def)
  have h2: "length [0, 1::int] \<noteq> checked_length ?m"
    by (simp add: checked_length_def)
  have h3: "well_typed ?h (MatrixRef 0 4) 1" by (simp add: well_typed_def perm_addr_def)
  have h4: "alength (?h ! 1) \<noteq> (case MatrixRef 0 4 of MatrixRef p n \<Rightarrow> n
      | PermRef p \<Rightarrow> alength (?h ! p))"
    by simp
  have a: "updatePermutation (Perm [1, 0, 2, 3]) [0, 1, 2] = Inl (LengthMismatch length_message)"
    using update_length_check [of "[0, 1, 2]" "Perm [1, 0, 2, 3]"] h1 by simp
  have b: "updatePermutation ?m [0, 1] = Inl (LengthMismatch rows_message)"
    using update_length_check [of "[0, 1]" ?m] h2 by simp
  have c: "updatePermutation_heap ?h (MatrixRef 0 4) 1 =
      Some (?h, Inl (LengthMismatch rows_message))"
    using update_length_check [of "[0, 1, 2]" ?m ?h "MatrixRef 0 4" 1] h3 h4 by simp
  show ?thesis using h1 h2 h3 a b c by blast
qed

text \<open>
  When the values are fewer than the entries of the permutation, \<open>permuteVector\<close> on a
  \<^verbatim>\<open>BigInt64Array\<close> does throw, a \<^verbatim>\<open>TypeError\<close>, when it comes to assign \<^verbatim>\<open>undefined\<close>.
\<close>

lemma bigint_short_values:
  "permuteVector (Perm [0, 1]) (BigIntArray [10::int]) = Inl TypeError"
  "permuteVector_heap [TypedArray 0 [0, 1], BigIntArray [10]] (PermRef 0) 1 =
     Some ([TypedArray 0 [0, 1], BigIntArray [10], BigIntArray [10]], Inl TypeError)"
  by (simp_all add: permuteVector_def slice_def typed_get_def permuteVector_heap_def
      well_typed_def perm_addr_def heap_slice_def forEach_def heap_read_def heap_write_def
      upt_rec)

end
